theory Spec2Isabelle
  imports Complex_Main "HOL-Library.Sublist"
begin

section \<open>Strings\<close>

text \<open>
  A Python \<open>str\<close> is taken as a list of characters with code points below 256.
  \<open>str.lower()\<close> on these maps A-Z and the capital letters of Latin-1 (192-222 except 215)
  to their small forms. \<open>x in s\<close> on strings is \<^const>\<open>sublist\<close>, \<open>s.startswith(x)\<close> is
  \<^const>\<open>prefix\<close> and \<open>s.endswith(x)\<close> is \<^const>\<open>suffix\<close>.
\<close>

definition lower_char :: "char \<Rightarrow> char" where
  "lower_char c =
     (let n = (of_char c :: nat)
      in if (65 \<le> n \<and> n \<le> 90) \<or> (192 \<le> n \<and> n \<le> 222 \<and> n \<noteq> 215)
         then char_of (n + 32) else c)"

definition lower :: "string \<Rightarrow> string" where
  "lower s = map lower_char s"

text \<open>
  \<open>str.isspace()\<close>, which is also the class \<open>\s\<close> of \<open>re\<close>, and \<open>str.isalnum()\<close>, on code
  points below 256. The class \<open>\w\<close> of \<open>re\<close> is the alphanumeric characters and the
  underscore.
\<close>

definition isspace :: "char \<Rightarrow> bool" where
  "isspace c = ((of_char c :: nat) \<in> {9, 10, 11, 12, 13, 28, 29, 30, 31, 32, 133, 160})"

definition isalnum :: "char \<Rightarrow> bool" where
  "isalnum c =
     (let n = (of_char c :: nat)
      in (48 \<le> n \<and> n \<le> 57) \<or> (65 \<le> n \<and> n \<le> 90) \<or> (97 \<le> n \<and> n \<le> 122)
         \<or> n \<in> {170, 178, 179, 181, 185, 186, 188, 189, 190}
         \<or> (192 \<le> n \<and> n \<le> 214) \<or> (216 \<le> n \<and> n \<le> 246) \<or> (248 \<le> n \<and> n \<le> 255))"

definition isword :: "char \<Rightarrow> bool" where
  "isword c = (isalnum c \<or> c = CHR ''_'')"

text \<open>\<open>s.strip()\<close> and \<open>s.split()\<close>, both on whitespace.\<close>

definition strip :: "string \<Rightarrow> string" where
  "strip s = rev (dropWhile isspace (rev (dropWhile isspace s)))"

function split_ws :: "string \<Rightarrow> string list" where
  "split_ws s =
     (case dropWhile isspace s of
        [] \<Rightarrow> []
      | c # cs \<Rightarrow> (c # takeWhile (\<lambda>x. \<not> isspace x) cs)
                  # split_ws (dropWhile (\<lambda>x. \<not> isspace x) cs))"
  by pat_completeness auto
termination
proof (relation "measure length")
  fix s :: string and c cs
  assume "dropWhile isspace s = c # cs"
  then have "length s \<ge> Suc (length cs)"
    by (metis length_Cons length_dropWhile_le)
  moreover have "length (dropWhile (\<lambda>x. \<not> isspace x) cs) \<le> length cs"
    by (rule length_dropWhile_le)
  ultimately show "(dropWhile (\<lambda>x. \<not> isspace x) cs, s) \<in> measure length"
    by simp
qed simp

text \<open>
  The ASCII letters (\<open>c.isascii() and c.isalpha()\<close>, the class \<open>[a-zA-Z]\<close>), and the
  string operations the url code uses: \<open>s.replace(old, new)\<close> for a non-empty \<open>old\<close>,
  \<open>s.rstrip('/')\<close>, \<open>s.split(d)\<close> on one character, and \<open>d.join(parts)\<close>.
\<close>

definition is_ascii_letter :: "char \<Rightarrow> bool" where
  "is_ascii_letter c =
     (let n = (of_char c :: nat) in (65 \<le> n \<and> n \<le> 90) \<or> (97 \<le> n \<and> n \<le> 122))"

function replace :: "string \<Rightarrow> string \<Rightarrow> string \<Rightarrow> string" where
  "replace old new [] = []"
| "replace old new (c # cs) =
     (if old \<noteq> [] \<and> prefix old (c # cs)
      then new @ replace old new (drop (length old) (c # cs))
      else c # replace old new cs)"
  by pat_completeness auto
termination
  by (relation "measure (\<lambda>(old, new, s). length s)") (auto simp: Suc_le_eq)

definition rstrip_slash :: "string \<Rightarrow> string" where
  "rstrip_slash s = rev (dropWhile (\<lambda>c. c = CHR ''/'') (rev s))"

function split_char :: "char \<Rightarrow> string \<Rightarrow> string list" where
  "split_char d s =
     (case dropWhile (\<lambda>c. c \<noteq> d) s of
        [] \<Rightarrow> [s]
      | x # rest \<Rightarrow> takeWhile (\<lambda>c. c \<noteq> d) s # split_char d rest)"
  by pat_completeness auto
termination
proof (relation "measure (\<lambda>(d, s). length s)")
  fix d :: char and s :: string and x rest
  assume "dropWhile (\<lambda>c. c \<noteq> d) s = x # rest"
  then have "Suc (length rest) \<le> length s"
    by (metis length_Cons length_dropWhile_le)
  then show "((d, rest), (d, s)) \<in> measure (\<lambda>(d, s). length s)"
    by simp
qed simp

fun join :: "string \<Rightarrow> string list \<Rightarrow> string" where
  "join d [] = []"
| "join d [x] = x"
| "join d (x # y # rest) = x @ d @ join d (y # rest)"


section \<open>Circuit breaker (webfill.py, class CircuitBreaker)\<close>

text \<open>
  The attribute \<open>state\<close> holds one of the strings 'closed', 'open', 'half-open'.
\<close>

datatype cb_state = CLOSED | OPEN | HALF_OPEN

text \<open>
  The fields of \<open>CircuitBreaker.__init__\<close>. Times are the readings of \<open>time.time()\<close>,
  taken as real numbers; \<open>last_failure_time\<close> is \<open>None\<close> until the first failure.
\<close>

record CircuitBreaker =
  failure_threshold :: int
  recovery_timeout :: real
  failure_count :: int
  last_failure_time :: "real option"
  state :: cb_state

definition CircuitBreaker_init :: "int \<Rightarrow> real \<Rightarrow> CircuitBreaker" where
  "CircuitBreaker_init thr tmo =
     \<lparr>failure_threshold = thr, recovery_timeout = tmo, failure_count = 0,
      last_failure_time = None, state = CLOSED\<rparr>"

text \<open>
  What \<open>call\<close> can raise: the exception of line 58 (its message is
  "Circuit breaker is OPEN - too many failures"), the exception \<open>e\<close> of the wrapped
  function, re-raised at line 74, and the \<open>TypeError\<close> of \<open>time.time() - None\<close> at line 55
  when a breaker is 'open' with no failure time.
\<close>

datatype 'e call_error = CircuitOpenError | Raised 'e | NoneTimeError

text \<open>
  The wrapped function is any callable: it acts on the world \<open>'w\<close> it runs in and either
  raises (\<open>Inl\<close>) or returns (\<open>Inr\<close>). Not invoking it leaves the world as it was.
  \<open>t_check\<close> is the reading of \<open>time.time()\<close> at line 55 and \<open>t_fail\<close> the reading at
  line 68.
\<close>

type_synonym ('e, 'a, 'w) callable = "'w \<Rightarrow> ('e + 'a) \<times> 'w"

definition check_open :: "CircuitBreaker \<Rightarrow> real \<Rightarrow> 'e call_error + CircuitBreaker" where
  "check_open cb t_check =
     (if state cb = OPEN then
        (case last_failure_time cb of
           None \<Rightarrow> Inl NoneTimeError
         | Some t \<Rightarrow>
             if t_check - t > recovery_timeout cb then Inr (cb\<lparr>state := HALF_OPEN\<rparr>)
             else Inl CircuitOpenError)
      else Inr cb)"

definition on_success :: "CircuitBreaker \<Rightarrow> CircuitBreaker" where
  "on_success cb =
     (if state cb = HALF_OPEN then cb\<lparr>state := CLOSED, failure_count := 0\<rparr> else cb)"

definition on_failure :: "CircuitBreaker \<Rightarrow> real \<Rightarrow> CircuitBreaker" where
  "on_failure cb t_fail =
     (let cb1 = cb\<lparr>failure_count := failure_count cb + 1, last_failure_time := Some t_fail\<rparr>
      in if failure_count cb1 \<ge> failure_threshold cb1 then cb1\<lparr>state := OPEN\<rparr> else cb1)"

definition call ::
  "CircuitBreaker \<Rightarrow> real \<Rightarrow> real \<Rightarrow> ('e, 'a, 'w) callable \<Rightarrow> 'w
     \<Rightarrow> ('e call_error + 'a) \<times> CircuitBreaker \<times> 'w" where
  "call cb t_check t_fail func w =
     (case check_open cb t_check of
        Inl err \<Rightarrow> (Inl err, cb, w)
      | Inr cb1 \<Rightarrow>
          (case func w of
             (Inr result, w') \<Rightarrow> (Inr result, on_success cb1, w')
           | (Inl e, w') \<Rightarrow> (Inl (Raised e), on_failure cb1 t_fail, w')))"

text \<open>
  A run of calls on one breaker: each step gives the two clock readings of that call and
  the function it wraps. The results are collected in order.
\<close>

type_synonym ('e, 'a, 'w) step = "real \<times> real \<times> ('e, 'a, 'w) callable"

fun run_calls ::
  "CircuitBreaker \<Rightarrow> ('e, 'a, 'w) step list \<Rightarrow> 'w
     \<Rightarrow> ('e call_error + 'a) list \<times> CircuitBreaker \<times> 'w" where
  "run_calls cb [] w = ([], cb, w)"
| "run_calls cb ((t_check, t_fail, func) # rest) w =
     (case call cb t_check t_fail func w of
        (r, cb', w') \<Rightarrow>
          (case run_calls cb' rest w' of (rs, cb'', w'') \<Rightarrow> (r # rs, cb'', w'')))"

text \<open>
  The call counter of a test: the world is paired with the number of invocations, and the
  counted function adds one each time it runs.
\<close>

definition counted :: "('e, 'a, 'w) callable \<Rightarrow> ('e, 'a, nat \<times> 'w) callable" where
  "counted func = (\<lambda>(n, w). case func w of (r, w') \<Rightarrow> (r, (Suc n, w')))"

definition fails :: "('e, 'a, 'w) callable \<Rightarrow> bool" where
  "fails func = (\<forall>w. isl (fst (func w)))"

definition is_raised :: "('e call_error + 'a) \<Rightarrow> bool" where
  "is_raised r = (case r of Inl (Raised e) \<Rightarrow> True | _ \<Rightarrow> False)"

fun count_step :: "('e, 'a, 'w) step \<Rightarrow> ('e, 'a, nat \<times> 'w) step" where
  "count_step (t_check, t_fail, func) = (t_check, t_fail, counted func)"

text \<open>The two simplest wrapped functions: one that always raises, one that always returns.\<close>

definition always_raise :: "'e \<Rightarrow> ('e, 'a, 'w) callable" where
  "always_raise e w = (Inl e, w)"

definition always_return :: "'a \<Rightarrow> ('e, 'a, 'w) callable" where
  "always_return r w = (Inr r, w)"

text \<open>
  What holds of a breaker between calls, whatever calls were made on a fresh one: threshold
  and timeout are the constructor's, and the breaker is 'closed', or 'open' with the
  threshold reached and a failure time recorded ('half-open' lasts only within a call).
\<close>

definition cb_inv :: "int \<Rightarrow> real \<Rightarrow> CircuitBreaker \<Rightarrow> bool" where
  "cb_inv thr tmo cb =
     (failure_threshold cb = thr \<and> recovery_timeout cb = tmo \<and>
      (state cb = CLOSED \<or>
       (state cb = OPEN \<and> failure_count cb \<ge> thr \<and> last_failure_time cb \<noteq> None)))"


section \<open>URL parsing (urllib.parse)\<close>

text \<open>
  The library functions the scraper calls, after CPython 3.11. Splitting a url is modelled
  in full; three things are taken from the library as they are: \<open>quote\<close>, \<open>unquote\<close>, and
  the validation of a bracketed host in a netloc (\<open>bracketed_netloc_ok\<close>: what
  \<open>_check_bracketed_host\<close> accepts; every netloc in the versions that do not validate).
\<close>

record urllib =
  quote :: "string \<Rightarrow> string"
  unquote :: "string \<Rightarrow> string"
  bracketed_netloc_ok :: "string \<Rightarrow> bool"

record parse_result =
  scheme :: string
  netloc :: string
  path :: string
  params :: string
  query :: string
  fragment :: string

text \<open>
  \<open>urlsplit\<close>. Leading C0 control characters and spaces are stripped and tab, carriage
  return and newline removed everywhere. A scheme is what precedes the first colon when it
  starts with an ASCII letter and has only scheme characters. A netloc follows \<open>//\<close> and ends
  at the first of \<open>/ ? #\<close>. \<open>None\<close> is the \<open>ValueError\<close> of an invalid bracketed netloc.
  (\<open>_checknetloc\<close> rejects nothing below code point 256.)
\<close>

definition lstrip_c0 :: "string \<Rightarrow> string" where
  "lstrip_c0 s = dropWhile (\<lambda>c. (of_char c :: nat) \<le> 32) s"

definition remove_unsafe :: "string \<Rightarrow> string" where
  "remove_unsafe s = filter (\<lambda>c. (of_char c :: nat) \<notin> {9, 10, 13}) s"

definition scheme_char :: "char \<Rightarrow> bool" where
  "scheme_char c =
     (is_ascii_letter c \<or> (48 \<le> (of_char c :: nat) \<and> (of_char c :: nat) \<le> 57)
      \<or> c \<in> {CHR ''+'', CHR ''-'', CHR ''.''})"

definition split_scheme :: "string \<Rightarrow> string \<times> string" where
  "split_scheme url =
     (let pre = takeWhile (\<lambda>c. c \<noteq> CHR '':'') url
      in if length pre < length url \<and> pre \<noteq> [] \<and> is_ascii_letter (hd pre)
            \<and> list_all scheme_char pre
         then (lower pre, drop (Suc (length pre)) url)
         else ([], url))"

definition netloc_end :: "char \<Rightarrow> bool" where
  "netloc_end c = (c \<in> {CHR ''/'', CHR ''?'', CHR ''#''})"

definition split_netloc :: "string \<Rightarrow> string \<times> string" where
  "split_netloc url =
     (if take 2 url = ''//''
      then (takeWhile (\<lambda>c. \<not> netloc_end c) (drop 2 url),
            dropWhile (\<lambda>c. \<not> netloc_end c) (drop 2 url))
      else ([], url))"

definition netloc_valid :: "urllib \<Rightarrow> string \<Rightarrow> bool" where
  "netloc_valid lib n =
     (if (CHR ''['' \<in> set n \<and> CHR '']'' \<notin> set n) \<or> (CHR '']'' \<in> set n \<and> CHR ''['' \<notin> set n)
      then False
      else if CHR ''['' \<in> set n \<and> CHR '']'' \<in> set n then bracketed_netloc_ok lib n
      else True)"

text \<open>\<open>s.split(d, 1)\<close> when \<open>d\<close> occurs in \<open>s\<close>; without \<open>d\<close> the pair is \<open>(s, '')\<close>.\<close>

definition split_first :: "char \<Rightarrow> string \<Rightarrow> string \<times> string" where
  "split_first d s = (takeWhile (\<lambda>c. c \<noteq> d) s, drop 1 (dropWhile (\<lambda>c. c \<noteq> d) s))"

definition urlsplit :: "urllib \<Rightarrow> string \<Rightarrow> parse_result option" where
  "urlsplit lib url0 =
     (let url1 = remove_unsafe (lstrip_c0 url0);
          (sch, url2) = split_scheme url1;
          (net, url3) = split_netloc url2
      in if \<not> netloc_valid lib net then None
         else
           (let (url4, frag) = split_first CHR ''#'' url3;
                (url5, qry) = split_first CHR ''?'' url4
            in Some \<lparr>scheme = sch, netloc = net, path = url5, params = [], query = qry,
                      fragment = frag\<rparr>))"

text \<open>
  \<open>urlparse\<close>: for the schemes of \<open>uses_params\<close>, the parameters after \<open>;\<close> in the last
  segment of the path are split off (\<open>_splitparams\<close>). The last segment is what follows
  the last \<open>/\<close> (\<open>url.rfind('/')\<close>).
\<close>

definition uses_params :: "string list" where
  "uses_params =
     ['''', ''ftp'', ''hdl'', ''prospero'', ''http'', ''imap'', ''https'', ''shttp'', ''rtsp'',
      ''rtsps'', ''rtspu'', ''sip'', ''sips'', ''mms'', ''sftp'', ''tel'']"

definition last_segment :: "string \<Rightarrow> string" where
  "last_segment url = rev (takeWhile (\<lambda>c. c \<noteq> CHR ''/'') (rev url))"

definition splitparams :: "string \<Rightarrow> string \<times> string" where
  "splitparams url =
     (if CHR ''/'' \<in> set url then
        (let before = take (length url - length (last_segment url)) url
         in if CHR '';'' \<notin> set (last_segment url) then (url, [])
            else (before @ takeWhile (\<lambda>c. c \<noteq> CHR '';'') (last_segment url),
                  drop 1 (dropWhile (\<lambda>c. c \<noteq> CHR '';'') (last_segment url))))
      else split_first CHR '';'' url)"

definition urlparse :: "urllib \<Rightarrow> string \<Rightarrow> parse_result option" where
  "urlparse lib url =
     (case urlsplit lib url of
        None \<Rightarrow> None
      | Some r \<Rightarrow>
          if scheme r \<in> set uses_params \<and> CHR '';'' \<in> set (path r)
          then (case splitparams (path r) of (p, prm) \<Rightarrow> Some (r\<lparr>path := p, params := prm\<rparr>))
          else Some r)"

text \<open>
  \<open>parse_qsl\<close> and \<open>parse_qs\<close> with their defaults: fields are separated by \<open>&\<close>, an empty
  field or a field with a blank value is dropped, and name and value are unquoted after
  \<open>+\<close> is replaced by a space. The dictionary of \<open>parse_qs\<close> keeps the names in the order
  of their first occurrence, each with the list of its values.
\<close>

definition unquote_plus :: "urllib \<Rightarrow> string \<Rightarrow> string" where
  "unquote_plus lib s = unquote lib (map (\<lambda>c. if c = CHR ''+'' then CHR '' '' else c) s)"

definition parse_field :: "urllib \<Rightarrow> string \<Rightarrow> (string \<times> string) option" where
  "parse_field lib name_value =
     (if name_value = [] then None
      else (case split_first CHR ''='' name_value of
              (name, val) \<Rightarrow>
                if val = [] then None
                else Some (unquote_plus lib name, unquote_plus lib val)))"

definition parse_qsl :: "urllib \<Rightarrow> string \<Rightarrow> (string \<times> string) list" where
  "parse_qsl lib qs =
     (if qs = [] then [] else List.map_filter (parse_field lib) (split_char CHR ''&'' qs))"

fun group_values :: "(string \<times> string) list \<Rightarrow> (string \<times> string list) list
     \<Rightarrow> (string \<times> string list) list" where
  "group_values [] parsed_result = parsed_result"
| "group_values ((name, val) # pairs) parsed_result =
     group_values pairs
       (if name \<in> fst ` set parsed_result
        then map (\<lambda>(n, vs). if n = name then (n, vs @ [val]) else (n, vs)) parsed_result
        else parsed_result @ [(name, [val])])"

definition parse_qs :: "urllib \<Rightarrow> string \<Rightarrow> (string \<times> string list) list" where
  "parse_qs lib qs = group_values (parse_qsl lib qs) []"


section \<open>The scraper's state (webfill.py, class SmartWebScraper)\<close>

text \<open>
  The fields of \<open>SmartWebScraper.__init__\<close> that the frontier and the rate limiter read and
  write. \<open>last_request_time\<close> is the entry of the \<open>defaultdict(float)\<close> at \<open>self.domain\<close>,
  the only key the class uses (0.0 before the first request). \<open>page_summaries\<close> keeps the
  url of each summary. The five counters are the entries of \<open>self.stats\<close>.
\<close>

record SmartWebScraper =
  base_domain :: string
  max_pages :: int
  visited :: "string set"
  failed_urls :: "string set"
  page_summaries :: "string list"
  priority_urls :: "string list"
  regular_urls :: "string list"
  last_request_time :: real
  min_delay :: real
  adaptive_delay :: real
  requests_made :: nat
  errors_encountered :: nat
  urls_filtered :: nat
  rate_limit_hits :: nat
  circuit_breaker_trips :: nat

section \<open>Adaptive rate limiter (webfill.py, smart_delay, scrape_page, _make_request)\<close>

text \<open>
  \<open>smart_delay\<close>, lines 388-397, in the two steps a caller takes on the shared scraper. The
  method holds no lock (unlike the accesses to \<open>visited\<close>, \<open>failed_urls\<close> and \<open>stats\<close>, which
  are under \<open>with self.lock\<close>), so steps of another worker thread can fall between the two.

  First step, lines 390-395: \<open>current_time\<close> is the reading of \<open>time.time()\<close> at line 390;
  the result is the argument of \<open>time.sleep\<close> when it is called, computed from the
  \<open>last_request_time\<close> and \<open>adaptive_delay\<close> that the caller reads.
\<close>

definition delay_needed :: "SmartWebScraper \<Rightarrow> real \<Rightarrow> real" where
  "delay_needed s current_time =
     (let time_since_last = current_time - last_request_time s
      in adaptive_delay s - time_since_last)"

definition smart_delay_sleep :: "SmartWebScraper \<Rightarrow> real \<Rightarrow> real option" where
  "smart_delay_sleep s current_time =
     (if delay_needed s current_time > 0 then Some (delay_needed s current_time) else None)"

text \<open>
  Second step, line 397: \<open>t_after\<close> is the reading of \<open>time.time()\<close> there, after the sleep
  if there was one. The request of the caller follows (\<open>scrape_page\<close>, lines 414-418).
\<close>

definition smart_delay_record :: "SmartWebScraper \<Rightarrow> real \<Rightarrow> SmartWebScraper" where
  "smart_delay_record s t_after = s\<lparr>last_request_time := t_after\<rparr>"

text \<open>
  One call of \<open>smart_delay\<close> with no step of another thread in between: the sleep, and the
  state after.
\<close>

definition smart_delay :: "SmartWebScraper \<Rightarrow> real \<Rightarrow> real \<Rightarrow> real option \<times> SmartWebScraper" where
  "smart_delay s current_time t_after =
     (smart_delay_sleep s current_time, smart_delay_record s t_after)"

text \<open>
  What the clock does around \<open>time.sleep\<close>: it does not run backwards, and a sleep lasts at
  least as long as asked.
\<close>

definition clock_respects_sleep :: "real option \<Rightarrow> real \<Rightarrow> real \<Rightarrow> bool" where
  "clock_respects_sleep slept current_time t_after =
     (case slept of None \<Rightarrow> current_time \<le> t_after | Some d \<Rightarrow> current_time + d \<le> t_after)"

text \<open>
  The worker threads of \<open>run\<close> (lines 926-941: a \<open>ThreadPoolExecutor\<close> of \<open>max_workers\<close>
  threads, 2 by default, each running \<open>scrape_page\<close>) call \<open>smart_delay\<close> on the one scraper.
  A schedule is the order in which their steps run: \<open>ReadClock k t\<close> is the first step of
  worker \<open>k\<close> with the clock at \<open>t\<close>, \<open>RecordTime k t\<close> its second step with the clock at \<open>t\<close>,
  after which its request is sent.

  \<open>run_workers\<close> runs a schedule on the shared state. \<open>sleeping\<close> holds, for each worker
  between its two steps, the clock it read and the sleep it computed; \<open>sent\<close> collects the
  times recorded, in order. The result is \<open>None\<close> for a schedule that cannot happen: a
  second step without a first, or one that comes before the sleep is over.
\<close>

datatype worker_step = ReadClock nat real | RecordTime nat real

fun run_workers ::
  "worker_step list \<Rightarrow> SmartWebScraper \<Rightarrow> (nat \<times> real \<times> real option) list \<Rightarrow> real list
     \<Rightarrow> (real list \<times> SmartWebScraper) option" where
  "run_workers [] s sleeping sent = Some (sent, s)"
| "run_workers (ReadClock k t # steps) s sleeping sent =
     run_workers steps s ((k, t, smart_delay_sleep s t) # sleeping) sent"
| "run_workers (RecordTime k t # steps) s sleeping sent =
     (case map_of sleeping k of
        None \<Rightarrow> None
      | Some (current_time, slept) \<Rightarrow>
          if clock_respects_sleep slept current_time t then
            run_workers steps (smart_delay_record s t)
              (filter (\<lambda>p. fst p \<noteq> k) sleeping) (sent @ [t])
          else None)"

text \<open>
  The least distance between two consecutive times of a list (\<open>None\<close> when there are fewer
  than two).
\<close>

fun least_gap :: "real list \<Rightarrow> real option" where
  "least_gap (a # b # ts) =
     (case least_gap (b # ts) of None \<Rightarrow> Some (b - a) | Some g \<Rightarrow> Some (min (b - a) g))"
| "least_gap ts = None"

text \<open>The success decay of \<open>_make_request\<close>, line 472.\<close>

definition decay_on_success :: "SmartWebScraper \<Rightarrow> SmartWebScraper" where
  "decay_on_success s = s\<lparr>adaptive_delay := max (adaptive_delay s * 0.9) (min_delay s)\<rparr>"

text \<open>
  The \<open>except\<close> branch of \<open>scrape_page\<close>, lines 421-443, on the message \<open>str(e)\<close> of the
  exception caught: the url is recorded as failed, the counters are updated, and the
  delay is raised by the branch the message selects.
\<close>

definition handle_scrape_error :: "SmartWebScraper \<Rightarrow> string \<Rightarrow> string \<Rightarrow> SmartWebScraper" where
  "handle_scrape_error s normalized_url error_msg =
     (let s1 = s\<lparr>errors_encountered := errors_encountered s + 1,
                  failed_urls := insert normalized_url (failed_urls s)\<rparr>
      in if sublist ''Circuit breaker is OPEN'' error_msg then
           s1\<lparr>circuit_breaker_trips := circuit_breaker_trips s1 + 1,
              adaptive_delay := min (adaptive_delay s1 * 1.5) 10.0\<rparr>
         else if sublist ''429'' error_msg \<or> sublist ''rate limit'' (lower error_msg) then
           s1\<lparr>rate_limit_hits := rate_limit_hits s1 + 1,
              adaptive_delay := min (adaptive_delay s1 * 2) 15.0\<rparr>
         else s1)"

text \<open>
  An update of the rate limiter: a successful request, or a failed scrape of a url, with
  the message of its exception.
\<close>

datatype limiter_update = Success | Failure string string

fun apply_update :: "limiter_update \<Rightarrow> SmartWebScraper \<Rightarrow> SmartWebScraper" where
  "apply_update Success s = decay_on_success s"
| "apply_update (Failure normalized_url error_msg) s = handle_scrape_error s normalized_url error_msg"

text \<open>
  The state set up by \<open>__init__\<close>, lines 212-254, before the base url is added: empty
  collections, both delays at 2.0 seconds. \<open>bd\<close> is the base domain given to the validator.
\<close>

definition SmartWebScraper_fields :: "string \<Rightarrow> int \<Rightarrow> SmartWebScraper" where
  "SmartWebScraper_fields bd mp =
     \<lparr>base_domain = bd, max_pages = mp, visited = {}, failed_urls = {},
      page_summaries = [], priority_urls = [], regular_urls = [],
      last_request_time = 0, min_delay = 2.0, adaptive_delay = 2.0,
      requests_made = 0, errors_encountered = 0, urls_filtered = 0,
      rate_limit_hits = 0, circuit_breaker_trips = 0\<rparr>"

text \<open>
  What every sequence of updates keeps of the delays.
\<close>

definition limiter_inv :: "SmartWebScraper \<Rightarrow> bool" where
  "limiter_inv s = (min_delay s = 2 \<and> 2 \<le> adaptive_delay s \<and> adaptive_delay s \<le> 15)"


section \<open>URL validation (webfill.py, class SmartURLValidator)\<close>

text \<open>
  \<open>SmartURLValidator.__init__\<close> keeps \<open>base_domain.replace('www.', '').lower()\<close>.
\<close>

definition SmartURLValidator_init :: "string \<Rightarrow> string" where
  "SmartURLValidator_init bd = lower (replace ''www.'' [] bd)"

text \<open>
  \<open>skip_patterns\<close>, lines 83-128, as \<open>pattern.search\<close> finds them in the lowered url.
  \<open>$\<close> matches at the end of the string and before a newline that ends it; the \<open>.\<close> of
  \<open>/.well-known/\<close> is any character but a newline.
\<close>

definition at_end :: "string \<Rightarrow> string \<Rightarrow> bool" where
  "at_end suf s = (suffix suf s \<or> suffix (suf @ [CHR 0x0A]) s)"

fun dot_well_known :: "string \<Rightarrow> bool" where
  "dot_well_known [] = False"
| "dot_well_known (a # cs) =
     ((a = CHR ''/'' \<and>
       (case cs of [] \<Rightarrow> False | c # rest \<Rightarrow> c \<noteq> CHR 0x0A \<and> prefix ''well-known/'' rest))
      \<or> dot_well_known cs)"

definition skip_extensions :: "string list" where
  "skip_extensions =
     [''css'', ''js'', ''ico'', ''png'', ''jpg'', ''jpeg'', ''gif'', ''svg'', ''woff'', ''woff2'',
      ''ttf'', ''eot'',
      ''pdf'', ''doc'', ''docx'', ''xls'', ''xlsx'', ''zip'', ''rar'', ''mp4'', ''mp3'', ''avi'',
      ''mov'',
      ''json'', ''xml'', ''txt'']"

definition skip_substrings :: "string list" where
  "skip_substrings =
     [''/cdn-cgi/'', ''/cf-ray/'',
      ''/wp-admin/'', ''/wp-content/uploads/'', ''/admin/'', ''/_next/static/'', ''/static/'',
      ''/assets/'', ''/node_modules/'',
      ''facebook.com'', ''twitter.com'', ''linkedin.com'', ''instagram.com'', ''youtube.com'',
      ''mailto:'', ''tel:'', ''javascript:'', ''#'',
      ''google-analytics'', ''googletagmanager'', ''facebook.net'', ''doubleclick.net'',
      ''/search?'', ''?utm_'', ''/sitemap'']"

definition matches_skip :: "string \<Rightarrow> bool" where
  "matches_skip full_url =
     (list_ex (\<lambda>p. sublist p full_url) skip_substrings
      \<or> list_ex (\<lambda>ext. at_end (CHR ''.'' # ext) full_url) skip_extensions
      \<or> dot_well_known full_url
      \<or> at_end ''/feed'' full_url \<or> at_end ''/feed/'' full_url
      \<or> at_end ''/rss'' full_url \<or> at_end ''/rss/'' full_url)"

definition path_depth :: "string \<Rightarrow> nat" where
  "path_depth p = length (filter (\<lambda>seg. seg \<noteq> []) (split_char CHR ''/'' p))"

text \<open>
  \<open>is_valid_url\<close>, lines 152-186. \<open>validator_domain\<close> is the validator's \<open>base_domain\<close>, as
  \<^const>\<open>SmartURLValidator_init\<close> gives it. A url that \<open>urlparse\<close> rejects is invalid.
\<close>

definition is_valid_url :: "urllib \<Rightarrow> string \<Rightarrow> string \<Rightarrow> bool" where
  "is_valid_url lib validator_domain url =
     (if url = [] \<or> length url > 2000 then False
      else (case urlparse lib url of
              None \<Rightarrow> False
            | Some parsed \<Rightarrow>
                if scheme parsed \<notin> {''http'', ''https''} then False
                else if lower (replace ''www.'' [] (netloc parsed)) \<noteq> validator_domain then False
                else if matches_skip (lower url) then False
                else if length (query parsed) > 200 then False
                else if path_depth (path parsed) > 6 then False
                else True))"

text \<open>
  \<open>get_url_priority\<close>, lines 188-206: 10 for every pattern of \<open>good_patterns\<close> found, up to 5
  for a short path, 2 for an empty query. \<open>None\<close> is the \<open>ValueError\<close> of \<open>urlparse\<close>.
\<close>

definition good_patterns :: "string list" where
  "good_patterns =
     [''/blog/'', ''/article/'', ''/post/'', ''/news/'', ''/about/'', ''/contact/'',
      ''/service/'', ''/product/'', ''/pricing/'', ''/feature/'', ''/help/'', ''/support/'',
      ''/docs/'', ''/guide/'', ''/tutorial/'']"

definition get_url_priority :: "urllib \<Rightarrow> string \<Rightarrow> int option" where
  "get_url_priority lib url =
     (case urlparse lib url of
        None \<Rightarrow> None
      | Some parsed \<Rightarrow>
          Some (10 * int (length (filter (\<lambda>p. sublist p (lower url)) good_patterns))
                + max 0 (5 - int (path_depth (path parsed)))
                + (if query parsed = [] then 2 else 0)))"

section \<open>URL normalization (webfill.py, normalize_url)\<close>

definition important_params :: "string list" where
  "important_params = [''id'', ''page'', ''category'', ''tag'', ''slug'', ''section'']"

definition clean_params :: "(string \<times> string list) list \<Rightarrow> (string \<times> string) list" where
  "clean_params query_params =
     map (\<lambda>(key, vals). (key, hd vals))
       (filter (\<lambda>(key, vals). lower key \<in> set important_params \<and> vals \<noteq> []) query_params)"

definition build_query :: "urllib \<Rightarrow> (string \<times> string) list \<Rightarrow> string" where
  "build_query lib params_kept =
     join ''&'' (map (\<lambda>(key, val). key @ ''='' @ quote lib val) params_kept)"

text \<open>
  \<open>normalize_url\<close>, lines 357-386. \<open>None\<close> is the \<open>ValueError\<close> of \<open>urlparse\<close>, which
  the function does not catch.
\<close>

definition normalize_url :: "urllib \<Rightarrow> string \<Rightarrow> string option" where
  "normalize_url lib url =
     (if url = [] then Some []
      else (case urlparse lib url of
              None \<Rightarrow> None
            | Some parsed \<Rightarrow>
                (let p = (if rstrip_slash (path parsed) = [] then ''/''
                          else rstrip_slash (path parsed));
                     qry = build_query lib (clean_params (parse_qs lib (query parsed)))
                 in Some (scheme parsed @ ''://'' @ netloc parsed @ p
                          @ (if qry \<noteq> [] then CHR ''?'' # qry else [])))))"

text \<open>
  What idempotence needs of the library on the parameters kept: a kept name is unquoted to
  itself, a kept value is quoted to a non-empty string without \<open>&\<close>, \<open>#\<close>, tab, newline or
  carriage return, and unquoting that string gives the value back.
\<close>

definition codec_round_trips :: "urllib \<Rightarrow> (string \<times> string) list \<Rightarrow> bool" where
  "codec_round_trips lib params_kept =
     (\<forall>(key, val) \<in> set params_kept.
        unquote_plus lib key = key
        \<and> unquote_plus lib (quote lib val) = val
        \<and> quote lib val \<noteq> []
        \<and> (\<forall>c \<in> set (quote lib val).
              c \<noteq> CHR ''&'' \<and> c \<noteq> CHR ''#'' \<and> (of_char c :: nat) \<notin> {9, 10, 13}))"

text \<open>The characters that pass through \<open>urlsplit\<close> and a split at \<open>&\<close> unchanged.\<close>

definition plain_char :: "char \<Rightarrow> bool" where
  "plain_char c = (c \<noteq> CHR ''&'' \<and> c \<noteq> CHR ''#'' \<and> (of_char c :: nat) \<notin> {9, 10, 13})"

section \<open>Crawl frontier (webfill.py, add_url, get_next_url, scrape_page)\<close>

text \<open>
  \<open>add_url\<close>, lines 318-339. \<open>None\<close> is an exception that leaves the function (the
  \<open>ValueError\<close> of \<open>urlparse\<close> in \<open>normalize_url\<close> or \<open>get_url_priority\<close>).
\<close>

definition add_url :: "urllib \<Rightarrow> SmartWebScraper \<Rightarrow> string \<Rightarrow> int \<Rightarrow> SmartWebScraper option" where
  "add_url lib s url priority =
     (if \<not> is_valid_url lib (base_domain s) url
      then Some (s\<lparr>urls_filtered := urls_filtered s + 1\<rparr>)
      else (case normalize_url lib url of
              None \<Rightarrow> None
            | Some normalized_url \<Rightarrow>
                if normalized_url \<in> visited s \<or> normalized_url \<in> failed_urls s then Some s
                else (case get_url_priority lib url of
                        None \<Rightarrow> None
                      | Some url_priority \<Rightarrow>
                          (let actual_priority = priority + url_priority
                           in if actual_priority \<ge> 8 then
                                (if normalized_url \<notin> set (priority_urls s)
                                 then Some (s\<lparr>priority_urls :=
                                              priority_urls s @ [normalized_url]\<rparr>)
                                 else Some s)
                              else
                                (if normalized_url \<notin> set (regular_urls s)
                                 then Some (s\<lparr>regular_urls :=
                                              regular_urls s @ [normalized_url]\<rparr>)
                                 else Some s)))))"

text \<open>\<open>get_next_url\<close>, lines 341-355: the url returned (or \<open>None\<close>) and the state after.\<close>

definition get_next_url :: "SmartWebScraper \<Rightarrow> string option \<times> SmartWebScraper" where
  "get_next_url s =
     (if int (length (page_summaries s)) \<ge> max_pages s then (None, s)
      else (case priority_urls s of
              u # rest \<Rightarrow> (Some u, s\<lparr>priority_urls := rest\<rparr>)
            | [] \<Rightarrow>
                (case regular_urls s of
                   u # rest \<Rightarrow> (Some u, s\<lparr>regular_urls := rest\<rparr>)
                 | [] \<Rightarrow> (None, s))))"

text \<open>
  The entry of \<open>scrape_page\<close>, lines 401-406: a url already visited is not scraped
  (\<open>False\<close>); another is recorded as visited and scraped (\<open>True\<close>).
\<close>

definition scrape_page_enter :: "urllib \<Rightarrow> SmartWebScraper \<Rightarrow> string \<Rightarrow> (bool \<times> SmartWebScraper) option" where
  "scrape_page_enter lib s url =
     (case normalize_url lib url of
        None \<Rightarrow> None
      | Some normalized_url \<Rightarrow>
          if normalized_url \<in> visited s then Some (False, s)
          else Some (True, s\<lparr>visited := insert normalized_url (visited s)\<rparr>))"

text \<open>
  What the crawl does to the frontier, one operation at a time: a url is added, the next
  url is taken, a scrape is entered, a scrape fails with a message, a page summary is
  appended (\<open>process_url\<close>, line 609). An operation that raises leaves the state as it was.
\<close>

datatype frontier_op =
    AddUrl string int
  | GetNextUrl
  | EnterScrape string
  | FailScrape string string
  | AppendSummary string

fun apply_op :: "urllib \<Rightarrow> frontier_op \<Rightarrow> SmartWebScraper \<Rightarrow> SmartWebScraper" where
  "apply_op lib (AddUrl url priority) s =
     (case add_url lib s url priority of None \<Rightarrow> s | Some s' \<Rightarrow> s')"
| "apply_op lib GetNextUrl s = snd (get_next_url s)"
| "apply_op lib (EnterScrape url) s =
     (case scrape_page_enter lib s url of None \<Rightarrow> s | Some (go, s') \<Rightarrow> s')"
| "apply_op lib (FailScrape normalized_url error_msg) s =
     handle_scrape_error s normalized_url error_msg"
| "apply_op lib (AppendSummary url) s = s\<lparr>page_summaries := page_summaries s @ [url]\<rparr>"

section \<open>A codec for examples\<close>

text \<open>
  A percent codec that agrees with \<open>quote\<close> and \<open>unquote\<close> on ASCII text: \<open>quote\<close> keeps
  letters, digits, \<open>_.-~\<close> and \<open>/\<close> and writes any other character as \<open>%XX\<close>; \<open>unquote\<close>
  reads \<open>%XX\<close> back and leaves a \<open>%\<close> without two hexadecimal digits as it is. Bracketed
  netlocs are all accepted.
\<close>

definition always_safe :: "char \<Rightarrow> bool" where
  "always_safe c =
     (is_ascii_letter c \<or> (48 \<le> (of_char c :: nat) \<and> (of_char c :: nat) \<le> 57)
      \<or> c \<in> {CHR ''_'', CHR ''.'', CHR ''-'', CHR ''~''})"

definition hex_digit :: "nat \<Rightarrow> char" where
  "hex_digit n = ''0123456789ABCDEF'' ! n"

definition hex_value :: "char \<Rightarrow> nat option" where
  "hex_value c =
     (let n = (of_char c :: nat)
      in if 48 \<le> n \<and> n \<le> 57 then Some (n - 48)
         else if 65 \<le> n \<and> n \<le> 70 then Some (n - 55)
         else if 97 \<le> n \<and> n \<le> 102 then Some (n - 87)
         else None)"

definition quote_ascii :: "string \<Rightarrow> string" where
  "quote_ascii s =
     concat (map (\<lambda>c. if always_safe c \<or> c = CHR ''/'' then [c]
                      else [CHR ''%'', hex_digit ((of_char c :: nat) div 16),
                            hex_digit ((of_char c :: nat) mod 16)]) s)"

fun unquote_ascii :: "string \<Rightarrow> string" where
  "unquote_ascii [] = []"
| "unquote_ascii (c # rest) =
     (if c = CHR ''%'' then
        (case rest of
           a # b # rest' \<Rightarrow>
             (case (hex_value a, hex_value b) of
                (Some x, Some y) \<Rightarrow> char_of (16 * x + y) # unquote_ascii rest'
              | _ \<Rightarrow> c # unquote_ascii rest)
         | _ \<Rightarrow> c # unquote_ascii rest)
      else c # unquote_ascii rest)"

definition ascii_lib :: urllib where
  "ascii_lib = \<lparr>quote = quote_ascii, unquote = unquote_ascii, bracketed_netloc_ok = (\<lambda>n. True)\<rparr>"

text \<open>What the frontier keeps of its queues: no url twice in the same queue.\<close>

definition queues_distinct :: "SmartWebScraper \<Rightarrow> bool" where
  "queues_distinct s = (distinct (priority_urls s) \<and> distinct (regular_urls s))"


section \<open>Retry helper (youtube.py, execute_with_retry)\<close>

text \<open>
  The exceptions \<open>execute_with_retry\<close> tells apart, by its three \<open>except\<close> clauses:
  \<open>HttpError\<close> with the status of its response (\<open>None\<close> when it has none), the family
  \<open>socket.timeout\<close>, \<open>TimeoutError\<close>, \<open>OSError\<close>, and every other \<open>Exception\<close>.
\<close>

datatype py_exception = HttpError "int option" | OSError string | OtherException string

definition is_retryable_http_error :: "int option \<Rightarrow> bool" where
  "is_retryable_http_error status = (status \<in> {Some 500, Some 502, Some 503, Some 504})"

text \<open>
  The \<open>except\<close> clauses of lines 105-115: an \<open>HttpError\<close> that is not retryable is re-raised
  at once; every other exception is kept as \<open>last_err\<close> and the loop goes on.
\<close>

definition reraised_at_once :: "py_exception \<Rightarrow> bool" where
  "reraised_at_once e =
     (case e of
        HttpError status \<Rightarrow> \<not> is_retryable_http_error status
      | OSError m \<Rightarrow> False
      | OtherException m \<Rightarrow> False)"

text \<open>
  \<open>raise last_err\<close>, line 118. When no attempt was made \<open>last_err\<close> is \<open>None\<close>, and raising
  \<open>None\<close> is a \<open>TypeError\<close>.
\<close>

definition raise_last_err :: "py_exception option \<Rightarrow> py_exception" where
  "raise_last_err last_err =
     (case last_err of
        None \<Rightarrow> OtherException ''TypeError: exceptions must derive from BaseException''
      | Some e \<Rightarrow> e)"

text \<open>
  The loop \<open>for attempt in range(tries)\<close>. \<open>request\<close> is \<open>request.execute\<close>, a callable on
  the world it runs in; \<open>sleeps\<close> collects the arguments of \<open>time.sleep\<close> in order.
\<close>

function retry_loop ::
  "(py_exception, 'r, 'w) callable \<Rightarrow> int \<Rightarrow> real \<Rightarrow> int \<Rightarrow> py_exception option
     \<Rightarrow> real list \<Rightarrow> 'w \<Rightarrow> (py_exception + 'r) \<times> real list \<times> 'w" where
  "retry_loop request tries backoff attempt last_err sleeps w =
     (if attempt < tries then
        (case request w of
           (Inr resp, w') \<Rightarrow> (Inr resp, sleeps, w')
         | (Inl e, w') \<Rightarrow>
             if reraised_at_once e then (Inl e, sleeps, w')
             else retry_loop request tries backoff (attempt + 1) (Some e)
                    (if attempt < tries - 1 then sleeps @ [backoff ^ nat attempt] else sleeps)
                    w')
      else (Inl (raise_last_err last_err), sleeps, w))"
  by pat_completeness auto
termination
  by (relation "measure (\<lambda>(request, tries, backoff, attempt, last_err, sleeps, w).
                  nat (tries - attempt))") auto

definition execute_with_retry ::
  "(py_exception, 'r, 'w) callable \<Rightarrow> int \<Rightarrow> real \<Rightarrow> 'w
     \<Rightarrow> (py_exception + 'r) \<times> real list \<times> 'w" where
  "execute_with_retry request tries backoff w = retry_loop request tries backoff 0 None [] w"

text \<open>
  A request whose outcomes are scripted: each execution takes the next outcome of the
  list that is its world, the way a mock with a list of side effects does.
\<close>

definition next_outcome :: "(py_exception, 'r, (py_exception + 'r) list) callable" where
  "next_outcome outcomes =
     (case outcomes of
        [] \<Rightarrow> (Inl (OtherException ''StopIteration''), [])
      | x # rest \<Rightarrow> (x, rest))"

definition backoff_sleeps :: "real \<Rightarrow> nat \<Rightarrow> real list" where
  "backoff_sleeps backoff n = map (\<lambda>attempt. backoff ^ attempt) [0..<n]"



section \<open>Text helpers (youtube.py)\<close>

text \<open>
  \<open>normalize\<close>: \<open>re.sub(r"\s+", " ", s or "").strip()\<close>. Every maximal run of whitespace
  becomes one space, then the ends are stripped. \<open>tolc\<close> lowers the result.
\<close>

function collapse_ws :: "string \<Rightarrow> string" where
  "collapse_ws [] = []"
| "collapse_ws (c # cs) =
     (if isspace c then CHR '' '' # collapse_ws (dropWhile isspace cs)
      else c # collapse_ws cs)"
  by pat_completeness auto
termination
  by (relation "measure length") (auto simp: length_dropWhile_le less_Suc_eq_le)

definition normalize_str :: "string \<Rightarrow> string" where
  "normalize_str s = strip (collapse_ws s)"

definition tolc :: "string \<Rightarrow> string" where
  "tolc s = lower (normalize_str s)"

text \<open>The words of the \<open>STOPWORDS\<close> literal, lines 46-51, in order.\<close>

definition STOPWORDS :: "string list" where
  "STOPWORDS =
     [''the'', ''a'', ''an'', ''and'', ''or'', ''for'', ''to'', ''of'', ''in'',
      ''on'', ''with'', ''by'', ''from'', ''into'', ''at'', ''over'', ''under'',
      ''about'', ''as'', ''is'', ''are'', ''was'', ''were'', ''be'', ''been'',
      ''being'', ''this'', ''that'', ''those'', ''these'', ''it'', ''its'',
      ''how'', ''what'', ''why'', ''when'', ''where'', ''who'', ''which'',
      ''does'', ''do'', ''did'', ''has'', ''have'', ''had'', ''their'', ''them'',
      ''they'', ''you'', ''we'', ''i'', ''your'', ''our'', ''ours'', ''his'',
      ''her'', ''hers'', ''him'', ''he'', ''she'', ''brand'', ''brands'',
      ''product'', ''products'', ''pricing'', ''price'', ''compare'',
      ''comparison'', ''unique'', ''selling'', ''proposition'', ''usp'',
      ''reviews'', ''review'', ''testimonial'', ''testimonials'', ''pain'',
      ''points'']"

text \<open>
  \<open>extract_keywords\<close>: \<open>re.findall(r"[a-zA-Z][a-zA-Z\-]+", tolc(text))\<close>, then the filter.
  \<open>findall\<close> scans from the left: where a letter is followed by a letter or hyphen, the
  match takes every letter and hyphen that follows and the scan goes on after it;
  elsewhere the scan moves one character on.
\<close>

definition is_token_char :: "char \<Rightarrow> bool" where
  "is_token_char c = (is_ascii_letter c \<or> c = CHR ''-'')"

function findall_tokens :: "string \<Rightarrow> string list" where
  "findall_tokens [] = []"
| "findall_tokens (c # cs) =
     (if is_ascii_letter c \<and> cs \<noteq> [] \<and> is_token_char (hd cs)
      then (c # takeWhile is_token_char cs) # findall_tokens (dropWhile is_token_char cs)
      else findall_tokens cs)"
  by pat_completeness auto
termination
  by (relation "measure length") (auto simp: length_dropWhile_le less_Suc_eq_le)

definition extract_keywords :: "string \<Rightarrow> string list" where
  "extract_keywords txt =
     filter (\<lambda>t. t \<notin> set STOPWORDS \<and> length t > 2) (findall_tokens (tolc txt))"

text \<open>
  \<open>GENERIC_TRASH_PATTERNS\<close>, lines 74-78, as \<open>re.search\<close> finds them in a string lowered
  by \<open>tolc\<close>. \<open>char_then_word t s\<close> is the search for \<open>t\<close> followed by a word character
  (\<open>#\w+\<close>, \<open>@\w+\<close>); \<open>has_whole_word w prev s\<close> is the search for \<open>\bw\b\<close>, \<open>prev\<close>
  telling whether the character before \<open>s\<close> is a word character. The anchored patterns
  match the whole string; a string stripped by \<open>tolc\<close> has no final newline for \<open>$\<close> to skip.
\<close>

fun char_then_word :: "char \<Rightarrow> string \<Rightarrow> bool" where
  "char_then_word t (a # b # cs) = ((a = t \<and> isword b) \<or> char_then_word t (b # cs))"
| "char_then_word t _ = False"

fun has_whole_word :: "string \<Rightarrow> bool \<Rightarrow> string \<Rightarrow> bool" where
  "has_whole_word w prev [] = False"
| "has_whole_word w prev (c # cs) =
     ((\<not> prev \<and> prefix w (c # cs)
        \<and> (case drop (length w) (c # cs) of [] \<Rightarrow> True | d # rest \<Rightarrow> \<not> isword d))
      \<or> has_whole_word w (isword c) cs)"

definition matches_trash :: "string \<Rightarrow> bool" where
  "matches_trash tlc =
     (sublist ''subscribe'' tlc
      \<or> sublist ''follow me'' tlc
      \<or> sublist ''check my channel'' tlc \<or> sublist ''check out my channel'' tlc
      \<or> sublist ''giveaway'' tlc
      \<or> sublist ''http://'' tlc \<or> sublist ''https://'' tlc
      \<or> sublist ''www.'' tlc
      \<or> char_then_word CHR ''#'' tlc
      \<or> char_then_word CHR ''@'' tlc
      \<or> has_whole_word ''like'' False tlc \<or> has_whole_word ''share'' False tlc
      \<or> has_whole_word ''comment'' False tlc
      \<or> tlc \<in> {''nice'', ''nice!'', ''nice video'', ''nice video!''}
      \<or> tlc \<in> {''cool'', ''cool!''}
      \<or> tlc \<in> {''awesome'', ''awesome!''}
      \<or> tlc \<in> {''first'', ''first!''}
      \<or> tlc \<in> {''lol'', ''lol!''})"

text \<open>
  \<open>looks_meaningful\<close>, lines 227-242. \<open>min_chars\<close> and \<open>min_words\<close> are the module's
  \<open>MIN_CHARS\<close> and \<open>MIN_WORDS\<close> (25 and 6 unless configured). The ratio is taken as a
  real number.
\<close>

definition looks_meaningful :: "int \<Rightarrow> int \<Rightarrow> string \<Rightarrow> bool" where
  "looks_meaningful min_chars min_words txt =
     (if int (length txt) < min_chars then False
      else if int (length (split_ws txt)) < min_words then False
      else if real (length (filter (\<lambda>ch. \<not> isalnum ch \<and> \<not> isspace ch) txt))
                / real (max 1 (length txt)) > 0.4 then False
      else \<not> matches_trash (tolc txt))"


section \<open>Comment pipeline (youtube.py, fetch_relevant_comments)\<close>

text \<open>
  A retained comment (the dict built at lines 272-277; \<open>comment_text\<close> is its key
  "text"), and the same with its \<open>similarity_score\<close> (lines 300-302).
\<close>

record comment =
  comment_text :: string
  author :: string
  likeCount :: int
  publishedAt :: string

type_synonym scored_comment = "comment \<times> real"

text \<open>
  An item of the response. \<open>it["snippet"]["topLevelComment"]["snippet"]\<close> raises on an item
  without that path; with it, each field is read by \<open>sn.get\<close> with a default.
\<close>

record item_snippet =
  textDisplay :: "string option"
  authorDisplayName :: "string option"
  sn_likeCount :: "int option"
  sn_publishedAt :: "string option"

datatype item = Malformed | TopLevelComment item_snippet

text \<open>
  The two libraries the pipeline calls. \<open>detect\<close> of \<open>langdetect\<close> returns a language code,
  or raises \<open>LangDetectException\<close>, or raises something else. The embedder and
  \<open>util.cos_sim\<close> together give, for a question and the texts of the comments, one similarity
  per text, or raise.
\<close>

datatype detect_outcome = Detected string | LangDetectException | DetectRaised string

type_synonym detector = "string \<Rightarrow> detect_outcome"

type_synonym similarity = "string \<Rightarrow> string list \<Rightarrow> py_exception + real list"

text \<open>
  The body of the \<open>try\<close> of lines 261-279, for one item: \<open>Inl\<close> is an exception that reaches
  the outer \<open>except Exception\<close>, \<open>Inr None\<close> a \<open>continue\<close>, \<open>Inr (Some c)\<close> the comment
  appended to \<open>raw\<close>.
\<close>

definition item_body :: "detector \<Rightarrow> int \<Rightarrow> int \<Rightarrow> item \<Rightarrow> py_exception + comment option" where
  "item_body detect min_chars min_words it =
     (case it of
        Malformed \<Rightarrow> Inl (OtherException ''KeyError'')
      | TopLevelComment sn \<Rightarrow>
          (let txt = normalize_str (case textDisplay sn of None \<Rightarrow> [] | Some t \<Rightarrow> t)
           in if \<not> looks_meaningful min_chars min_words txt then Inr None
              else (case detect txt of
                      LangDetectException \<Rightarrow> Inr None
                    | DetectRaised m \<Rightarrow> Inl (OtherException m)
                    | Detected lang \<Rightarrow>
                        if lang \<noteq> ''en'' then Inr None
                        else Inr (Some
                          \<lparr>comment_text = txt,
                           author = (case authorDisplayName sn of
                                       None \<Rightarrow> ''Anonymous'' | Some a \<Rightarrow> a),
                           likeCount = (case sn_likeCount sn of None \<Rightarrow> 0 | Some n \<Rightarrow> n),
                           publishedAt = (case sn_publishedAt sn of
                                            None \<Rightarrow> [] | Some p \<Rightarrow> p)\<rparr>))))"

text \<open>The loop of lines 259-279: an item whose body raises is skipped.\<close>

fun collect_raw :: "detector \<Rightarrow> int \<Rightarrow> int \<Rightarrow> item list \<Rightarrow> comment list" where
  "collect_raw detect min_chars min_words [] = []"
| "collect_raw detect min_chars min_words (it # items) =
     (case item_body detect min_chars min_words it of
        Inl e \<Rightarrow> collect_raw detect min_chars min_words items
      | Inr None \<Rightarrow> collect_raw detect min_chars min_words items
      | Inr (Some c) \<Rightarrow> c # collect_raw detect min_chars min_words items)"

text \<open>The keyword overlap of lines 284-285.\<close>

definition keyword_filter :: "string \<Rightarrow> comment list \<Rightarrow> comment list" where
  "keyword_filter question raw =
     (let q_keywords = extract_keywords question
      in filter (\<lambda>c. list_ex (\<lambda>k. sublist k (tolc (comment_text c))) q_keywords) raw)"

text \<open>
  The loop of lines 296-304 over the sorted pairs. The test of the cap comes after the
  append.
\<close>

fun collect_top :: "scored_comment list \<Rightarrow> real \<Rightarrow> int \<Rightarrow> scored_comment list \<Rightarrow> scored_comment list" where
  "collect_top [] min_similarity max_comments out = out"
| "collect_top ((c, s) # pairs) min_similarity max_comments out =
     (if s \<ge> min_similarity then
        (let out' = out @ [(c, s)]
         in if int (length out') \<ge> max_comments then out'
            else collect_top pairs min_similarity max_comments out')
      else collect_top pairs min_similarity max_comments out)"

text \<open>
  The semantic rerank, lines 289-308. \<open>pairs.sort(key=..., reverse=True)\<close> is a stable sort
  by descending score: \<^const>\<open>sort_key\<close> on the negated score. An exception of the
  similarity computation is caught and the empty list returned.
\<close>

definition sort_pairs :: "scored_comment list \<Rightarrow> scored_comment list" where
  "sort_pairs pairs = sort_key (\<lambda>p. - snd p) pairs"

definition semantic_rerank ::
  "similarity \<Rightarrow> string \<Rightarrow> comment list \<Rightarrow> real \<Rightarrow> int \<Rightarrow> py_exception + scored_comment list" where
  "semantic_rerank sim question filtered min_similarity max_comments =
     (case sim question (map comment_text filtered) of
        Inl e \<Rightarrow> Inr []
      | Inr sims \<Rightarrow>
          Inr (collect_top (sort_pairs (zip filtered sims)) min_similarity max_comments []))"

text \<open>
  What \<open>req.execute()\<close> gives back: the decoded body of the reply. It is a JSON object with
  or without an entry \<open>"items"\<close>, or some other value (\<open>None\<close> for a reply without content,
  a list, a string, a number), which has no method \<open>get\<close>. The entry \<open>"items"\<close> is a list of
  items, or a value the \<open>for\<close> loop cannot iterate (\<open>null\<close>, a number, a boolean). An entry
  that is a string or an object is iterated element by element, and each element is an
  item without the path to a snippet: a list of \<^const>\<open>Malformed\<close> items.
\<close>

datatype items_entry = ItemsAbsent | ItemsNotIterable | ItemsList "item list"

datatype response = NotAnObject | Object items_entry

text \<open>
  The header of the loop, line 260: \<open>resp.get("items", [])\<close> and the call of \<open>iter\<close> on its
  value. Neither is inside a \<open>try\<close>: \<open>Inl\<close> is the exception that leaves
  \<open>fetch_relevant_comments\<close>.
\<close>

definition response_items :: "response \<Rightarrow> py_exception + item list" where
  "response_items resp =
     (case resp of
        NotAnObject \<Rightarrow> Inl (OtherException ''AttributeError'')
      | Object ItemsAbsent \<Rightarrow> Inr []
      | Object ItemsNotIterable \<Rightarrow> Inl (OtherException ''TypeError'')
      | Object (ItemsList items) \<Rightarrow> Inr items)"

text \<open>
  The argument \<open>question\<close>. It is annotated \<open>str\<close>, and Python does not check the
  annotation: \<open>Text q\<close> is a string, \<open>FalsyValue\<close> a value that is not a string and counts as
  false (\<open>None\<close>, 0, an empty list), \<open>OtherValue\<close> any other value (a number, a list, bytes).
  \<open>extract_keywords(question)\<close> (line 284) goes through \<open>tolc\<close> to \<open>normalize\<close>, line 81:
  \<open>re.sub(r"\s+", " ", s or "")\<close> reads a false value as the empty string and raises
  \<open>TypeError\<close> on another value that is not a string. Line 284 is not inside a \<open>try\<close>.
\<close>

datatype question_arg = Text string | FalsyValue | OtherValue

definition question_str :: "question_arg \<Rightarrow> py_exception + string" where
  "question_str question =
     (case question of
        Text q \<Rightarrow> Inr q
      | FalsyValue \<Rightarrow> Inr []
      | OtherValue \<Rightarrow> Inl (OtherException ''TypeError''))"

text \<open>
  \<open>fetch_relevant_comments\<close>, lines 244-308. \<open>req\<close> is the request built at line 246
  (\<open>Inl\<close> when building it raises); \<open>brand\<close> is not used by the function and \<open>video_id\<close> only
  to build the request. The result is \<open>Inl\<close> for an exception that leaves the function and
  \<open>Inr\<close> for a returned list, with the sleeps of the retry helper and the world after.

  The first \<open>try\<close> (lines 245-256) covers the request and its execution, the second (lines
  261-279) the body of the loop for one item, the third (lines 290-308) the rerank. The
  header of the loop (line 260) and the keyword filter (lines 284-285) are outside all
  three. The rerank is reached only with a comment that contains a keyword of the
  question, hence with a question that is a string.
\<close>

definition fetch_relevant_comments ::
  "detector \<Rightarrow> similarity \<Rightarrow> int \<Rightarrow> int
     \<Rightarrow> py_exception + (py_exception, response, 'w) callable
     \<Rightarrow> question_arg \<Rightarrow> int \<Rightarrow> real \<Rightarrow> int \<Rightarrow> 'w
     \<Rightarrow> (py_exception + scored_comment list) \<times> real list \<times> 'w" where
  "fetch_relevant_comments detect sim min_chars min_words req question max_comments
       min_similarity tries w =
     (case req of
        Inl e \<Rightarrow> (Inr [], [], w)
      | Inr request \<Rightarrow>
          (case execute_with_retry request tries 2.0 w of
             (Inl e, sleeps, w') \<Rightarrow> (Inr [], sleeps, w')
           | (Inr resp, sleeps, w') \<Rightarrow>
               (case response_items resp of
                  Inl e \<Rightarrow> (Inl e, sleeps, w')
                | Inr items \<Rightarrow>
                    (let raw = collect_raw detect min_chars min_words items
                     in if raw = [] then (Inr [], sleeps, w')
                        else
                          (case question_str question of
                             Inl e \<Rightarrow> (Inl e, sleeps, w')
                           | Inr q \<Rightarrow>
                               (let filtered = keyword_filter q raw
                                in if filtered = [] then (Inr [], sleeps, w')
                                   else (semantic_rerank sim q filtered min_similarity
                                           max_comments, sleeps, w')))))))"

text \<open>
  The rerank in the words of the specification: the pairs at or above the floor, in
  descending order of similarity, capped at the maximum count.
\<close>

definition rerank_spec :: "scored_comment list \<Rightarrow> real \<Rightarrow> int \<Rightarrow> scored_comment list" where
  "rerank_spec pairs min_similarity max_comments =
     take (nat max_comments) (filter (\<lambda>p. snd p \<ge> min_similarity) (sort_pairs pairs))"

text \<open>
  Stand-ins for the two libraries in examples: a similarity that returns a fixed list of
  scores, one that raises, and a detector that answers English except on one text, where
  it raises \<open>LangDetectException\<close>.
\<close>

definition fixed_similarity :: "real list \<Rightarrow> similarity" where
  "fixed_similarity sims question texts = Inr sims"

definition failing_similarity :: "py_exception \<Rightarrow> similarity" where
  "failing_similarity e question texts = Inl e"

definition english_except :: "string \<Rightarrow> detector" where
  "english_except failing txt = (if txt = failing then LangDetectException else Detected ''en'')"

definition example_comment :: "string \<Rightarrow> comment" where
  "example_comment t = \<lparr>comment_text = t, author = ''Anonymous'', likeCount = 0, publishedAt = []\<rparr>"

definition example_item :: "string \<Rightarrow> item" where
  "example_item t =
     TopLevelComment \<lparr>textDisplay = Some t, authorDisplayName = None, sn_likeCount = None,
                      sn_publishedAt = None\<rparr>"


section \<open>Properties of the circuit breaker\<close>

lemma run_calls_append:
  "run_calls cb (xs @ ys) w =
     (case run_calls cb xs w of (rs, cb', w') \<Rightarrow>
        (case run_calls cb' ys w' of (rs', cb'', w'') \<Rightarrow> (rs @ rs', cb'', w'')))"
  by (induction xs arbitrary: cb w) (auto split: prod.splits)

lemma call_closed_fails:
  assumes "state cb = CLOSED" and "fails func"
  shows "\<exists>e w'. call cb t_check t_fail (counted func) (n, w) =
           (Inl (Raised e), on_failure cb t_fail, (Suc n, w'))"
proof -
  obtain r w' where fw: "func w = (r, w')" by (cases "func w")
  with assms(2) obtain e where "r = Inl e"
    unfolding fails_def by (metis fst_conv isl_def)
  with fw assms(1) show ?thesis
    by (simp add: call_def check_open_def counted_def)
qed

lemma on_failure_below:
  assumes "failure_count cb + 1 < failure_threshold cb"
  shows "on_failure cb t = cb\<lparr>failure_count := failure_count cb + 1, last_failure_time := Some t\<rparr>"
  using assms by (simp add: on_failure_def Let_def)

lemma on_failure_reach:
  assumes "failure_count cb + 1 \<ge> failure_threshold cb"
  shows "on_failure cb t = cb\<lparr>failure_count := failure_count cb + 1, last_failure_time := Some t, state := OPEN\<rparr>"
  using assms by (simp add: on_failure_def Let_def)

lemma closed_failures_stay_closed:
  assumes "state cb = CLOSED"
      and "\<forall>s \<in> set steps. fails (snd (snd s))"
      and "failure_count cb + int (length steps) < failure_threshold cb"
      and "run_calls cb (map count_step steps) (n, w) = (rs, cb', (n', w'))"
  shows "state cb' = CLOSED \<and> failure_count cb' = failure_count cb + int (length steps)
         \<and> failure_threshold cb' = failure_threshold cb
         \<and> recovery_timeout cb' = recovery_timeout cb \<and> n' = n + length steps
         \<and> (\<forall>r \<in> set rs. is_raised r)"
  using assms
proof (induction steps arbitrary: cb n w rs cb' n' w')
  case Nil
  then show ?case by simp
next
  case (Cons s steps)
  obtain tc tf f where s: "s = (tc, tf, f)" by (cases s)
  from Cons.prems(2) s have ff: "fails f" by simp
  from call_closed_fails[OF Cons.prems(1) ff, of tc tf n w]
  obtain e w1 where c: "call cb tc tf (counted f) (n, w) = (Inl (Raised e), on_failure cb tf, (Suc n, w1))"
    by blast
  let ?cb1 = "on_failure cb tf"
  from Cons.prems(3) have below: "failure_count cb + 1 < failure_threshold cb" by simp
  have cb1: "?cb1 = cb\<lparr>failure_count := failure_count cb + 1, last_failure_time := Some tf\<rparr>"
    by (rule on_failure_below[OF below])
  obtain rs1 cb2 n2 w2 where r: "run_calls ?cb1 (map count_step steps) (Suc n, w1) = (rs1, cb2, (n2, w2))"
    by (metis prod_cases3 surj_pair)
  from Cons.prems(4) s c r have eqs: "rs = Inl (Raised e) # rs1" "cb' = cb2" "n' = n2" "w' = w2"
    by simp_all
  have "state cb2 = CLOSED \<and> failure_count cb2 = failure_count ?cb1 + int (length steps)
         \<and> failure_threshold cb2 = failure_threshold ?cb1
         \<and> recovery_timeout cb2 = recovery_timeout ?cb1 \<and> n2 = Suc n + length steps
         \<and> (\<forall>r \<in> set rs1. is_raised r)"
  proof (rule Cons.IH[OF _ _ _ r])
    show "state ?cb1 = CLOSED" using Cons.prems(1) cb1 by simp
    show "\<forall>s\<in>set steps. fails (snd (snd s))" using Cons.prems(2) by simp
    show "failure_count ?cb1 + int (length steps) < failure_threshold ?cb1"
      using Cons.prems(3) cb1 by simp
  qed
  with eqs cb1 show ?case by (simp add: is_raised_def)
qed


lemma call_open_refused:
  assumes "state cb = OPEN" and "last_failure_time cb = Some t"
      and "\<not> (t_check - t > recovery_timeout cb)"
  shows "call cb t_check t_fail func w = (Inl CircuitOpenError, cb, w)"
  using assms by (simp add: call_def check_open_def)

text \<open>
  Claim C1. A breaker built with a threshold of at least one failure and run through exactly
  that many failing calls is 'open', each of those calls having invoked the wrapped function
  once (the counter equals the threshold). A further call whose clock reading is less than
  \<open>recovery_timeout\<close> seconds after the last failure raises the circuit-open error and
  leaves breaker, world and counter as they were: the wrapped function is not invoked.
\<close>

theorem breaker_opens_after_threshold_failures:
  assumes thr: "1 \<le> thr"
      and len: "int (length steps) = thr"
      and fl: "\<forall>s \<in> set steps. fails (snd (snd s))"
      and run: "run_calls (CircuitBreaker_init thr tmo) (map count_step steps) (0, w0)
                  = (rs, cb, (n, w))"
  shows "state cb = OPEN \<and> int n = thr
         \<and> last_failure_time cb = Some (fst (snd (last steps)))
         \<and> (t_check - fst (snd (last steps)) < tmo \<longrightarrow>
               call cb t_check t_fail (counted g) (n, w) = (Inl CircuitOpenError, cb, (n, w)))"
proof -
  let ?cb0 = "CircuitBreaker_init thr tmo"
  from thr len have ne: "steps \<noteq> []" by auto
  define pre where "pre = butlast steps"
  obtain tc tf f where lst: "last steps = (tc, tf, f)" by (cases "last steps")
  from ne lst have split: "steps = pre @ [(tc, tf, f)]"
    unfolding pre_def by (metis append_butlast_last_id)
  have lpre: "int (length pre) = thr - 1" using len split by simp
  obtain rs1 cb1 n1 w1 where r1:
    "run_calls ?cb0 (map count_step pre) (0, w0) = (rs1, cb1, (n1, w1))"
    by (metis prod_cases3 surj_pair)
  have inv1: "state cb1 = CLOSED \<and> failure_count cb1 = failure_count ?cb0 + int (length pre)
         \<and> failure_threshold cb1 = failure_threshold ?cb0
         \<and> recovery_timeout cb1 = recovery_timeout ?cb0 \<and> n1 = 0 + length pre
         \<and> (\<forall>r \<in> set rs1. is_raised r)"
  proof (rule closed_failures_stay_closed[OF _ _ _ r1])
    show "state ?cb0 = CLOSED" by (simp add: CircuitBreaker_init_def)
    show "\<forall>s\<in>set pre. fails (snd (snd s))" using fl split by simp
    show "failure_count ?cb0 + int (length pre) < failure_threshold ?cb0"
      using lpre by (simp add: CircuitBreaker_init_def)
  qed
  then have c1: "state cb1 = CLOSED" "failure_count cb1 = thr - 1" "failure_threshold cb1 = thr"
    "recovery_timeout cb1 = tmo" "n1 = length pre"
    using lpre by (simp_all add: CircuitBreaker_init_def)
  from fl split have ff: "fails f" by simp
  from call_closed_fails[OF c1(1) ff, of tc tf n1 w1]
  obtain e w2 where c: "call cb1 tc tf (counted f) (n1, w1) = (Inl (Raised e), on_failure cb1 tf, (Suc n1, w2))"
    by blast
  have of: "on_failure cb1 tf = cb1\<lparr>failure_count := failure_count cb1 + 1, last_failure_time := Some tf, state := OPEN\<rparr>"
    by (rule on_failure_reach) (simp add: c1)
  from run split r1 c have res: "cb = on_failure cb1 tf" "n = Suc n1" "w = w2"
    by (simp_all add: run_calls_append)
  have st: "state cb = OPEN" using res of by simp
  have lf: "last_failure_time cb = Some tf" using res of by simp
  have rt: "recovery_timeout cb = tmo" using res of c1 by simp
  have cnt: "int n = thr" using res c1 lpre by simp
  have refused: "call cb t_check t_fail (counted g) (n, w) = (Inl CircuitOpenError, cb, (n, w))"
    if "t_check - tf < tmo"
    by (rule call_open_refused[OF st lf]) (use that rt in simp)
  from st lf cnt refused lst show ?thesis by simp
qed

lemma fails_always_raise: "fails (always_raise e)"
  by (simp add: fails_def always_raise_def)

theorem breaker_opens_after_threshold_failures_witness:
  "run_calls (CircuitBreaker_init 2 300)
      (map count_step [(0, 1, always_raise ''boom''), (2, 3, always_raise ''boom'')]) (0, ())
     = ([Inl (Raised ''boom''), Inl (Raised ''boom'') :: string call_error + unit],
        \<lparr>failure_threshold = 2, recovery_timeout = 300, failure_count = 2,
         last_failure_time = Some 3, state = OPEN\<rparr>, (2, ()))
   \<and> call \<lparr>failure_threshold = 2, recovery_timeout = 300, failure_count = 2,
         last_failure_time = Some 3, state = OPEN\<rparr> 100 101
         (counted (always_return () :: (string, unit, unit) callable)) (2, ())
       = (Inl CircuitOpenError,
          \<lparr>failure_threshold = 2, recovery_timeout = 300, failure_count = 2,
           last_failure_time = Some 3, state = OPEN\<rparr>, (2, ()))"
proof -
  let ?steps = "[(0, 1, always_raise ''boom''), (2, 3, always_raise ''boom'')]
                  :: (string, unit, unit) step list"
  let ?cb = "\<lparr>failure_threshold = 2, recovery_timeout = 300, failure_count = 2,
         last_failure_time = Some 3, state = OPEN\<rparr>"
  have run: "run_calls (CircuitBreaker_init 2 300) (map count_step ?steps) (0, ())
     = ([Inl (Raised ''boom''), Inl (Raised ''boom'')], ?cb, (2, ()))"
    by (simp add: CircuitBreaker_init_def call_def check_open_def on_failure_def counted_def
          always_raise_def Let_def)
  have fl: "\<forall>s \<in> set ?steps. fails (snd (snd s))"
    by (simp add: fails_always_raise)
  from breaker_opens_after_threshold_failures[OF _ _ fl run, of 100 101 "always_return ()"]
  show ?thesis using run by simp
qed

subsection \<open>Half-open transitions\<close>

lemma cb_inv_init: "cb_inv thr tmo (CircuitBreaker_init thr tmo)"
  by (simp add: cb_inv_def CircuitBreaker_init_def)

lemma cb_inv_call:
  assumes "cb_inv thr tmo cb" and "call cb tc tf func w = (r, cb', w')"
  shows "cb_inv thr tmo cb'"
  using assms
  by (auto simp: cb_inv_def call_def check_open_def on_success_def on_failure_def Let_def
           split: sum.splits prod.splits option.splits if_splits)

lemma cb_inv_run_calls:
  assumes "cb_inv thr tmo cb" and "run_calls cb steps w = (rs, cb', w')"
  shows "cb_inv thr tmo cb'"
  using assms
proof (induction steps arbitrary: cb w rs cb' w')
  case Nil
  then show ?case by simp
next
  case (Cons s steps)
  obtain tc tf f where s: "s = (tc, tf, f)" by (cases s)
  obtain r cb1 w1 where c: "call cb tc tf f w = (r, cb1, w1)" by (cases "call cb tc tf f w")
  obtain rs1 cb2 w2 where r: "run_calls cb1 steps w1 = (rs1, cb2, w2)"
    by (cases "run_calls cb1 steps w1")
  from Cons.prems(2) s c r have "cb' = cb2" by simp
  moreover have "cb_inv thr tmo cb2"
    using Cons.IH[OF cb_inv_call[OF Cons.prems(1) c] r] .
  ultimately show ?case by simp
qed

text \<open>
  Claim C4, as the code has it. On a breaker reached from a fresh one by any calls, 'open'
  with its last failure at \<open>t\<close>: a call whose clock reading is more than \<open>recovery_timeout\<close>
  seconds after \<open>t\<close> passes the check in state 'half-open' and invokes the function.
  If the function returns, its result is returned, the counter is zero and the state
  'closed'; if it raises, the exception is re-raised, the failure is counted and timed,
  and the state is 'open' again.
\<close>

theorem half_open_transitions:
  fixes func :: "('e, 'a, 'w) callable"
  assumes reach: "run_calls (CircuitBreaker_init thr tmo) steps w0 = (rs, cb, w)"
      and op: "state cb = OPEN"
      and lf: "last_failure_time cb = Some t"
      and el: "t_check - t > tmo"
  shows "(check_open cb t_check :: 'e call_error + CircuitBreaker)
           = Inr (cb\<lparr>state := HALF_OPEN\<rparr>)
         \<and> (func w = (Inr res, w') \<longrightarrow>
              call cb t_check t_fail func w
                = (Inr res, cb\<lparr>state := CLOSED, failure_count := 0\<rparr>, w'))
         \<and> (func w = (Inl e, w') \<longrightarrow>
              call cb t_check t_fail func w
                = (Inl (Raised e),
                   cb\<lparr>failure_count := failure_count cb + 1,
                      last_failure_time := Some t_fail, state := OPEN\<rparr>, w'))"
proof -
  have inv: "cb_inv thr tmo cb"
    by (rule cb_inv_run_calls[OF cb_inv_init reach])
  with op have f: "failure_threshold cb = thr" "recovery_timeout cb = tmo"
    "failure_count cb \<ge> thr"
    by (auto simp: cb_inv_def)
  have chk: "check_open cb t_check = (Inr (cb\<lparr>state := HALF_OPEN\<rparr>) :: 'x call_error + CircuitBreaker)"
    using op lf el f by (simp add: check_open_def)
  show ?thesis
    using op lf el f
    by (simp add: check_open_def call_def on_success_def on_failure_def Let_def)
qed

theorem half_open_transitions_witness:
  "run_calls (CircuitBreaker_init 1 10) [(0, 0, always_raise ''boom'')] ()
     = ([Inl (Raised ''boom'') :: string call_error + unit],
        \<lparr>failure_threshold = 1, recovery_timeout = 10, failure_count = 1,
         last_failure_time = Some 0, state = OPEN\<rparr>, ())
   \<and> call \<lparr>failure_threshold = 1, recovery_timeout = 10, failure_count = 1,
         last_failure_time = Some 0, state = OPEN\<rparr> 11 12
         (always_return (5::nat) :: (string, nat, unit) callable) ()
       = (Inr 5,
          \<lparr>failure_threshold = 1, recovery_timeout = 10, failure_count = 0,
           last_failure_time = Some 0, state = CLOSED\<rparr>, ())
   \<and> call \<lparr>failure_threshold = 1, recovery_timeout = 10, failure_count = 1,
         last_failure_time = Some 0, state = OPEN\<rparr> 11 12
         (always_raise ''again'' :: (string, nat, unit) callable) ()
       = (Inl (Raised ''again''),
          \<lparr>failure_threshold = 1, recovery_timeout = 10, failure_count = 2,
           last_failure_time = Some 12, state = OPEN\<rparr>, ())"
proof -
  let ?cb = "\<lparr>failure_threshold = 1, recovery_timeout = 10, failure_count = 1,
         last_failure_time = Some 0, state = OPEN\<rparr>"
  have run: "run_calls (CircuitBreaker_init 1 10)
               [(0, 0, always_raise ''boom'' :: (string, unit, unit) callable)] ()
     = ([Inl (Raised ''boom'')], ?cb, ())"
    by (simp add: CircuitBreaker_init_def call_def check_open_def on_failure_def
          always_raise_def Let_def)
  have a: "(always_return (5::nat) :: (string, nat, unit) callable) () = (Inr 5, ())"
    by (simp add: always_return_def)
  have b: "(always_raise ''again'' :: (string, nat, unit) callable) () = (Inl ''again'', ())"
    by (simp add: always_raise_def)
  have t1: "call ?cb 11 12 (always_return (5::nat) :: (string, nat, unit) callable) ()
       = (Inr 5, ?cb\<lparr>state := CLOSED, failure_count := 0\<rparr>, ())"
    using half_open_transitions[OF run, where t = 0 and t_check = 11 and t_fail = 12
         and func = "always_return (5::nat) :: (string, nat, unit) callable"
         and res = "5::nat" and w' = "()"] a
    by simp
  have t2: "call ?cb 11 12 (always_raise ''again'' :: (string, nat, unit) callable) ()
       = (Inl (Raised ''again''), ?cb\<lparr>failure_count := failure_count ?cb + 1,
                      last_failure_time := Some 12, state := OPEN\<rparr>, ())"
    using half_open_transitions[OF run, where t = 0 and t_check = 11 and t_fail = 12
         and func = "always_raise ''again'' :: (string, nat, unit) callable"
         and e = "''again''" and w' = "()"] b
    by simp
  from t1 t2 run show ?thesis by simp
qed


text \<open>
  Claim C4 as stated fails at the boundary: the check of line 55 is a strict \<open>>\<close>. A breaker
  with a timeout of 10 seconds that failed at time 0 refuses the call made at time 10, when
  the timeout has elapsed, and does not invoke the function (the counter stays 0).
\<close>

theorem half_open_boundary_counterexample:
  "run_calls (CircuitBreaker_init 1 10) [(0, 0, always_raise ''boom'')] ()
     = ([Inl (Raised ''boom'') :: string call_error + unit],
        \<lparr>failure_threshold = 1, recovery_timeout = 10, failure_count = 1,
         last_failure_time = Some 0, state = OPEN\<rparr>, ())
   \<and> call \<lparr>failure_threshold = 1, recovery_timeout = 10, failure_count = 1,
         last_failure_time = Some 0, state = OPEN\<rparr> 10 10
         (counted (always_return () :: (string, unit, unit) callable)) (0, ())
       = (Inl CircuitOpenError,
          \<lparr>failure_threshold = 1, recovery_timeout = 10, failure_count = 1,
           last_failure_time = Some 0, state = OPEN\<rparr>, (0, ()))"
  by (simp add: CircuitBreaker_init_def call_def check_open_def on_failure_def
        always_raise_def Let_def)


subsection \<open>Successes in the closed state\<close>

lemma call_closed_cases:
  assumes "state cb = CLOSED" and "call cb tc tf func w = (r, cb', w')"
  shows "(\<not> is_raised r \<and> cb' = cb) \<or> (is_raised r \<and> cb' = on_failure cb tf)"
  using assms
  by (auto simp: call_def check_open_def on_success_def is_raised_def
           split: sum.splits prod.splits)

lemma closed_counts_failures:
  assumes "state cb = CLOSED"
      and "run_calls cb steps w = (rs, cb', w')"
      and "failure_count cb + int (length (filter is_raised rs)) < failure_threshold cb"
  shows "state cb' = CLOSED \<and> failure_threshold cb' = failure_threshold cb
         \<and> recovery_timeout cb' = recovery_timeout cb
         \<and> failure_count cb' = failure_count cb + int (length (filter is_raised rs))"
  using assms
proof (induction steps arbitrary: cb w rs cb' w')
  case Nil
  then show ?case by simp
next
  case (Cons s steps)
  obtain tc tf f where s: "s = (tc, tf, f)" by (cases s)
  obtain r cb1 w1 where c: "call cb tc tf f w = (r, cb1, w1)" by (cases "call cb tc tf f w")
  obtain rs1 cb2 w2 where r: "run_calls cb1 steps w1 = (rs1, cb2, w2)"
    by (cases "run_calls cb1 steps w1")
  from Cons.prems(2) s c r have eqs: "rs = r # rs1" "cb' = cb2" by simp_all
  from call_closed_cases[OF Cons.prems(1) c]
  show ?case
  proof
    assume a: "\<not> is_raised r \<and> cb1 = cb"
    with Cons.prems(3) eqs
    have "failure_count cb1 + int (length (filter is_raised rs1)) < failure_threshold cb1"
      by simp
    from Cons.IH[OF _ r this] a Cons.prems(1) eqs show ?thesis by simp
  next
    assume a: "is_raised r \<and> cb1 = on_failure cb tf"
    with Cons.prems(3) eqs have below: "failure_count cb + 1 < failure_threshold cb"
      by simp
    have of: "on_failure cb tf
                = cb\<lparr>failure_count := failure_count cb + 1, last_failure_time := Some tf\<rparr>"
      by (rule on_failure_below[OF below])
    from a have cb1: "cb1 = on_failure cb tf" and ir: "is_raised r" by simp_all
    have st1: "state cb1 = CLOSED" using Cons.prems(1) by (simp add: cb1 of)
    have lt: "failure_count cb1 + int (length (filter is_raised rs1)) < failure_threshold cb1"
      using Cons.prems(3) eqs(1) ir by (simp add: cb1 of)
    from Cons.IH[OF st1 r lt] ir eqs show ?thesis by (simp add: cb1 of)
  qed
qed

text \<open>
  Claim C10. Run any calls, failing or not, on a fresh breaker, and let the failures among
  them be fewer than the threshold. The breaker is 'closed' and its counter is the number
  of failures: the successes in between reset nothing. A further success leaves the
  breaker as it is. A further failure is counted, and when it is the one that reaches the
  threshold it opens the breaker.
\<close>

theorem closed_success_keeps_failure_count:
  assumes run: "run_calls (CircuitBreaker_init thr tmo) steps w0 = (rs, cb, w)"
      and nf: "int (length (filter is_raised rs)) < thr"
  shows "state cb = CLOSED \<and> failure_count cb = int (length (filter is_raised rs))
         \<and> (func w = (Inr res, w') \<longrightarrow> call cb t_check t_fail func w = (Inr res, cb, w'))
         \<and> (func w = (Inl e, w') \<and> failure_count cb + 1 < thr \<longrightarrow>
               call cb t_check t_fail func w
                 = (Inl (Raised e),
                    cb\<lparr>failure_count := failure_count cb + 1,
                       last_failure_time := Some t_fail\<rparr>, w'))
         \<and> (func w = (Inl e, w') \<and> failure_count cb + 1 = thr \<longrightarrow>
               call cb t_check t_fail func w
                 = (Inl (Raised e),
                    cb\<lparr>failure_count := thr, last_failure_time := Some t_fail,
                       state := OPEN\<rparr>, w'))"
proof -
  let ?cb0 = "CircuitBreaker_init thr tmo"
  have "state cb = CLOSED \<and> failure_threshold cb = failure_threshold ?cb0
         \<and> recovery_timeout cb = recovery_timeout ?cb0
         \<and> failure_count cb = failure_count ?cb0 + int (length (filter is_raised rs))"
  proof (rule closed_counts_failures[OF _ run])
    show "state ?cb0 = CLOSED" by (simp add: CircuitBreaker_init_def)
    show "failure_count ?cb0 + int (length (filter is_raised rs)) < failure_threshold ?cb0"
      using nf by (simp add: CircuitBreaker_init_def)
  qed
  then have c: "state cb = CLOSED" "failure_threshold cb = thr"
    "failure_count cb = int (length (filter is_raised rs))"
    by (simp_all add: CircuitBreaker_init_def)
  then show ?thesis
    by (simp add: call_def check_open_def on_success_def on_failure_def Let_def)
qed

theorem closed_success_keeps_failure_count_witness:
  "run_calls (CircuitBreaker_init 2 300)
     [(0, 1, always_raise ''boom''), (2, 3, always_return (7::nat)), (4, 5, always_return 8)] ()
     = ([Inl (Raised ''boom''), Inr 7, Inr 8],
        \<lparr>failure_threshold = 2, recovery_timeout = 300, failure_count = 1,
         last_failure_time = Some 1, state = CLOSED\<rparr>, ())
   \<and> call \<lparr>failure_threshold = 2, recovery_timeout = 300, failure_count = 1,
         last_failure_time = Some 1, state = CLOSED\<rparr> 6 7
         (always_return (9::nat) :: (string, nat, unit) callable) ()
       = (Inr 9, \<lparr>failure_threshold = 2, recovery_timeout = 300, failure_count = 1,
         last_failure_time = Some 1, state = CLOSED\<rparr>, ())
   \<and> call \<lparr>failure_threshold = 2, recovery_timeout = 300, failure_count = 1,
         last_failure_time = Some 1, state = CLOSED\<rparr> 6 7
         (always_raise ''again'' :: (string, nat, unit) callable) ()
       = (Inl (Raised ''again''),
          \<lparr>failure_threshold = 2, recovery_timeout = 300, failure_count = 2,
           last_failure_time = Some 7, state = OPEN\<rparr>, ())"
proof -
  let ?cb = "\<lparr>failure_threshold = 2, recovery_timeout = 300, failure_count = 1,
         last_failure_time = Some 1, state = CLOSED\<rparr>"
  let ?rs = "[Inl (Raised ''boom''), Inr 7, Inr 8] :: (string call_error + nat) list"
  have run: "run_calls (CircuitBreaker_init 2 300)
     [(0, 1, always_raise ''boom''), (2, 3, always_return (7::nat)), (4, 5, always_return 8)] ()
     = (?rs, ?cb, ())"
    by (simp add: CircuitBreaker_init_def call_def check_open_def on_failure_def on_success_def
          always_raise_def always_return_def Let_def)
  have nf: "int (length (filter is_raised ?rs)) < 2"
    by (simp add: is_raised_def)
  have cnt: "int (length (filter is_raised ?rs)) = 1"
    by (simp add: is_raised_def)
  have a: "(always_return (9::nat) :: (string, nat, unit) callable) () = (Inr 9, ())"
    by (simp add: always_return_def)
  have b: "(always_raise ''again'' :: (string, nat, unit) callable) () = (Inl ''again'', ())"
    by (simp add: always_raise_def)
  have t1: "call ?cb 6 7 (always_return (9::nat) :: (string, nat, unit) callable) ()
       = (Inr 9, ?cb, ())"
    using closed_success_keeps_failure_count[OF run nf, where t_check = 6 and t_fail = 7
         and func = "always_return (9::nat) :: (string, nat, unit) callable"
         and res = "9::nat" and w' = "()"] a
    by simp
  have t2: "call ?cb 6 7 (always_raise ''again'' :: (string, nat, unit) callable) ()
       = (Inl (Raised ''again''), ?cb\<lparr>failure_count := 2,
                      last_failure_time := Some 7, state := OPEN\<rparr>, ())"
    using closed_success_keeps_failure_count[OF run nf, where t_check = 6 and t_fail = 7
         and func = "always_raise ''again'' :: (string, nat, unit) callable"
         and e = "''again''" and w' = "()"] b cnt
    by simp
  from t1 t2 run show ?thesis by simp
qed


section \<open>Properties of the adaptive rate limiter\<close>

lemma limiter_inv_update:
  assumes "limiter_inv s"
  shows "limiter_inv (apply_update u s)"
  using assms
  by (cases u) (auto simp: limiter_inv_def decay_on_success_def handle_scrape_error_def Let_def)

lemma limiter_inv_fold:
  assumes "limiter_inv s"
  shows "limiter_inv (fold apply_update us s)"
  using assms
  by (induction us arbitrary: s) (simp_all add: limiter_inv_update)

text \<open>
  The delays, and one caller at a time. Start with both delays at 2.0 seconds, as
  \<open>__init__\<close> sets them, and apply any sequence of updates. The adaptive delay is then at
  least the minimum delay, and stays so after a further success decay or failure. A
  circuit-breaker trip sets it to one and a half times its value, capped at 10 seconds; a
  rate-limit response doubles it, capped at 15 seconds. When no other thread steps in
  between, and on a clock that respects the sleep, the time \<open>smart_delay\<close> records for a
  request is at least the minimum delay after the time recorded for the request before.
\<close>

lemma adaptive_delay_bounds:
  assumes init: "min_delay s0 = 2 \<and> adaptive_delay s0 = 2"
      and reach: "s = fold apply_update updates s0"
      and clock: "clock_respects_sleep (fst (smart_delay s current_time t_after))
                    current_time t_after"
  shows "min_delay s \<le> adaptive_delay s
       \<and> min_delay s \<le> adaptive_delay (decay_on_success s)
       \<and> min_delay s \<le> adaptive_delay (handle_scrape_error s url msg)
       \<and> (sublist ''Circuit breaker is OPEN'' msg \<longrightarrow>
            adaptive_delay (handle_scrape_error s url msg) = min (adaptive_delay s * 1.5) 10
            \<and> adaptive_delay (handle_scrape_error s url msg) \<le> 10)
       \<and> (\<not> sublist ''Circuit breaker is OPEN'' msg
            \<and> (sublist ''429'' msg \<or> sublist ''rate limit'' (lower msg)) \<longrightarrow>
            adaptive_delay (handle_scrape_error s url msg) = min (adaptive_delay s * 2) 15
            \<and> adaptive_delay (handle_scrape_error s url msg) \<le> 15)
       \<and> min_delay s \<le> last_request_time (snd (smart_delay s current_time t_after))
                          - last_request_time s"
proof -
  from init have "limiter_inv s0" by (simp add: limiter_inv_def)
  then have inv: "limiter_inv s" unfolding reach by (rule limiter_inv_fold)
  then have b: "min_delay s = 2" "2 \<le> adaptive_delay s" "adaptive_delay s \<le> 15"
    by (simp_all add: limiter_inv_def)
  have i1: "limiter_inv (apply_update Success s)" 
    and i2: "limiter_inv (apply_update (Failure url msg) s)"
    using inv by (rule limiter_inv_update)+
  have sep: "min_delay s \<le> last_request_time (snd (smart_delay s current_time t_after))
                          - last_request_time s"
    using clock b
    by (auto simp: smart_delay_def smart_delay_sleep_def smart_delay_record_def
             clock_respects_sleep_def delay_needed_def Let_def
             split: if_splits)
  have trip: "adaptive_delay (handle_scrape_error s url msg) = min (adaptive_delay s * 1.5) 10
            \<and> adaptive_delay (handle_scrape_error s url msg) \<le> 10"
    if "sublist ''Circuit breaker is OPEN'' msg"
    using that by (simp add: handle_scrape_error_def Let_def)
  have rl: "adaptive_delay (handle_scrape_error s url msg) = min (adaptive_delay s * 2) 15
            \<and> adaptive_delay (handle_scrape_error s url msg) \<le> 15"
    if "\<not> sublist ''Circuit breaker is OPEN'' msg"
       "sublist ''429'' msg \<or> sublist ''rate limit'' (lower msg)"
    using that by (auto simp add: handle_scrape_error_def Let_def)
  from b i1 i2 sep trip rl show ?thesis
    by (simp add: limiter_inv_def)
qed


lemma adaptive_delay_bounds_example:
  "adaptive_delay (fold apply_update [Failure ''u'' ''Rate limited (429)'', Success]
       (SmartWebScraper_fields ''example.com'' 50)) = 3.6
   \<and> adaptive_delay (handle_scrape_error
         (fold apply_update [Failure ''u'' ''Rate limited (429)'', Success]
            (SmartWebScraper_fields ''example.com'' 50))
         ''v'' ''Circuit breaker is OPEN - too many failures'') = 5.4
   \<and> smart_delay (fold apply_update [Failure ''u'' ''Rate limited (429)'', Success]
            (SmartWebScraper_fields ''example.com'' 50)) 1 3.6
       = (Some 2.6, (fold apply_update [Failure ''u'' ''Rate limited (429)'', Success]
            (SmartWebScraper_fields ''example.com'' 50))\<lparr>last_request_time := 3.6\<rparr>)"
proof -
  let ?fresh = "SmartWebScraper_fields ''example.com'' 50"
  let ?s = "fold apply_update [Failure ''u'' ''Rate limited (429)'', Success] ?fresh"
  have m1: "\<not> sublist ''Circuit breaker is OPEN'' ''Rate limited (429)''" by code_simp
  have m2: "sublist ''429'' ''Rate limited (429)''" by code_simp
  have m3: "sublist ''Circuit breaker is OPEN'' ''Circuit breaker is OPEN - too many failures''"
    by code_simp
  have init: "min_delay ?fresh = 2 \<and> adaptive_delay ?fresh = 2"
    by (simp add: SmartWebScraper_fields_def)
  have ad: "adaptive_delay ?s = 3.6" "min_delay ?s = 2" "last_request_time ?s = 0"
    using m1 m2
    by (simp_all add: SmartWebScraper_fields_def handle_scrape_error_def decay_on_success_def
          Let_def)
  have sd: "smart_delay ?s 1 3.6 = (Some 2.6, ?s\<lparr>last_request_time := 3.6\<rparr>)"
    unfolding smart_delay_def smart_delay_sleep_def smart_delay_record_def delay_needed_def
      Let_def ad by simp
  have clock: "clock_respects_sleep (fst (smart_delay ?s 1 3.6)) 1 3.6"
    unfolding sd by (simp add: clock_respects_sleep_def)
  from adaptive_delay_bounds[OF init refl clock, where url = "''v''"
         and msg = "''Circuit breaker is OPEN - too many failures''"] m3 ad sd
  show ?thesis by simp
qed

text \<open>
  A worker alone: its two steps in a row are one call of \<open>smart_delay\<close>.
\<close>

lemma run_workers_one_call:
  "run_workers [ReadClock k current_time, RecordTime k t_after] s [] []
   = (if clock_respects_sleep (fst (smart_delay s current_time t_after)) current_time t_after
      then Some ([t_after], snd (smart_delay s current_time t_after)) else None)"
  by (simp add: smart_delay_def)

text \<open>
  Claim C5, at the input where the code departs from it: two consecutive requests to the
  host are not kept \<open>min_delay\<close> apart. On a scraper fresh from \<open>__init__\<close> (\<open>min_delay\<close> 2.0),
  the two worker threads of the default configuration both read the clock at 1000 before
  either records a time: both find no sleep needed and both record 1000. For their next
  pages both read the clock at 1000.5 and the recorded time 1000: both sleep 1.5 seconds
  and both record 1002. Every sleep is respected, and the requests leave in pairs, 0
  seconds apart.
\<close>

theorem smart_delay_two_workers_same_time:
  "run_workers
     [ReadClock 1 1000, ReadClock 2 1000, RecordTime 1 1000, RecordTime 2 1000,
      ReadClock 1 1000.5, ReadClock 2 1000.5, RecordTime 1 1002, RecordTime 2 1002]
     (SmartWebScraper_fields ''example.com'' 50) [] []
   = Some ([1000, 1000, 1002, 1002],
           (SmartWebScraper_fields ''example.com'' 50)\<lparr>last_request_time := 1002\<rparr>)
   \<and> smart_delay_sleep ((SmartWebScraper_fields ''example.com'' 50)\<lparr>last_request_time := 1000\<rparr>)
        1000.5 = Some 1.5
   \<and> least_gap [1000, 1000, 1002, 1002] = Some 0
   \<and> min_delay (SmartWebScraper_fields ''example.com'' 50) = 2"
  by (simp add: smart_delay_sleep_def smart_delay_record_def delay_needed_def
        clock_respects_sleep_def SmartWebScraper_fields_def)

section \<open>Properties of the retry helper\<close>

declare retry_loop.simps [simp del]

lemma retry_loop_consumes:
  assumes "\<forall>e \<in> set errs. \<not> reraised_at_once e"
      and "int a + int (length errs) \<le> tries"
  shows "retry_loop next_outcome tries backoff (int a) last_err sleeps (map Inl errs @ rest)
         = retry_loop next_outcome tries backoff (int a + int (length errs))
             (if errs = [] then last_err else Some (last errs))
             (sleeps @ map (\<lambda>k. backoff ^ k)
                         (filter (\<lambda>k. int k < tries - 1) [a..<a + length errs]))
             rest"
  using assms
proof (induction errs arbitrary: a last_err sleeps)
  case Nil
  then show ?case by simp
next
  case (Cons e errs)
  from Cons.prems have lt: "int a < tries" and nr: "\<not> reraised_at_once e" by simp_all
  have step: "retry_loop next_outcome tries backoff (int a) last_err sleeps
                (map Inl (e # errs) @ rest)
              = retry_loop next_outcome tries backoff (int (Suc a)) (Some e)
                  (if int a < tries - 1 then sleeps @ [backoff ^ a] else sleeps)
                  (map Inl errs @ rest)"
    using lt nr
    by (subst retry_loop.simps) (simp add: next_outcome_def add.commute)
  have ih: "retry_loop next_outcome tries backoff (int (Suc a)) (Some e)
                  (if int a < tries - 1 then sleeps @ [backoff ^ a] else sleeps)
                  (map Inl errs @ rest)
            = retry_loop next_outcome tries backoff (int (Suc a) + int (length errs))
             (if errs = [] then Some e else Some (last errs))
             ((if int a < tries - 1 then sleeps @ [backoff ^ a] else sleeps)
                @ map (\<lambda>k. backoff ^ k)
                         (filter (\<lambda>k. int k < tries - 1) [Suc a..<Suc a + length errs]))
             rest"
    by (rule Cons.IH) (use Cons.prems in auto)
  have ivl: "[a..<a + length (e # errs)] = a # [Suc a..<Suc a + length errs]"
    by (simp add: upt_rec)
  show ?case
    unfolding step ih ivl by (simp add: add.commute add.left_commute)
qed

lemma filter_all_below:
  assumes "int n < tries"
  shows "filter (\<lambda>k. int k < tries - 1) [0..<n] = [0..<n]"
  using assms by (intro filter_True) auto

text \<open>
  Claim C7, as the code has it. Let the request fail with a run of exceptions none of
  which is an \<open>HttpError\<close> with a status other than 500, 502, 503, 504 (so: such
  \<open>HttpError\<close>s, timeouts and other OS errors, and any other exception). If the run is
  shorter than \<open>tries\<close>, every one of them is retried after a sleep of \<open>backoff ** attempt\<close>
  seconds, and the outcome that follows decides: a response is returned, and an
  \<open>HttpError\<close> with another status is raised at once, the request not being executed again.
  If the run is \<open>tries\<close> long, the request is executed \<open>tries\<close> times, with a sleep between
  attempts and none after the last, and the last exception of the run is raised.
\<close>

theorem retry_wrapper_behaviour:
  assumes tr: "\<forall>e \<in> set errs. \<not> reraised_at_once e"
  shows "(int (length errs) < tries \<longrightarrow>
            execute_with_retry next_outcome tries backoff (map Inl errs @ Inr resp # rest)
              = (Inr resp, backoff_sleeps backoff (length errs), rest))
       \<and> (int (length errs) < tries \<and> reraised_at_once e \<longrightarrow>
            execute_with_retry next_outcome tries backoff (map Inl errs @ Inl e # rest)
              = (Inl e, backoff_sleeps backoff (length errs), rest))
       \<and> (errs \<noteq> [] \<and> int (length errs) = tries \<longrightarrow>
            execute_with_retry next_outcome tries backoff (map Inl errs @ rest)
              = (Inl (last errs), backoff_sleeps backoff (length errs - 1), rest))"
proof (intro conjI impI)
  assume lt: "int (length errs) < tries"
  have "execute_with_retry next_outcome tries backoff (map Inl errs @ Inr resp # rest)
        = retry_loop next_outcome tries backoff (int 0 + int (length errs))
             (if errs = [] then None else Some (last errs))
             ([] @ map (\<lambda>k. backoff ^ k)
                         (filter (\<lambda>k. int k < tries - 1) [0..<0 + length errs]))
             (Inr resp # rest)"
    unfolding execute_with_retry_def
    using retry_loop_consumes[OF tr, of 0 tries backoff None "[]" "Inr resp # rest"] lt
    by simp
  also have "\<dots> = (Inr resp, backoff_sleeps backoff (length errs), rest)"
    using lt
    by (subst retry_loop.simps)
       (simp add: next_outcome_def backoff_sleeps_def filter_all_below)
  finally show "execute_with_retry next_outcome tries backoff (map Inl errs @ Inr resp # rest)
              = (Inr resp, backoff_sleeps backoff (length errs), rest)" .
next
  assume a: "int (length errs) < tries \<and> reraised_at_once e"
  then have lt: "int (length errs) < tries" and re: "reraised_at_once e" by simp_all
  have "execute_with_retry next_outcome tries backoff (map Inl errs @ Inl e # rest)
        = retry_loop next_outcome tries backoff (int 0 + int (length errs))
             (if errs = [] then None else Some (last errs))
             ([] @ map (\<lambda>k. backoff ^ k)
                         (filter (\<lambda>k. int k < tries - 1) [0..<0 + length errs]))
             (Inl e # rest)"
    unfolding execute_with_retry_def
    using retry_loop_consumes[OF tr, of 0 tries backoff None "[]" "Inl e # rest"] lt
    by simp
  also have "\<dots> = (Inl e, backoff_sleeps backoff (length errs), rest)"
    using lt re
    by (subst retry_loop.simps)
       (simp add: next_outcome_def backoff_sleeps_def filter_all_below)
  finally show "execute_with_retry next_outcome tries backoff (map Inl errs @ Inl e # rest)
              = (Inl e, backoff_sleeps backoff (length errs), rest)" .
next
  assume a: "errs \<noteq> [] \<and> int (length errs) = tries"
  then have ne: "errs \<noteq> []" and len: "int (length errs) = tries" by simp_all
  have flt: "filter (\<lambda>k. int k < tries - 1) [0..<length errs] = [0..<length errs - 1]"
  proof -
    from ne obtain n where n: "length errs = Suc n" by (cases errs) auto
    have "filter (\<lambda>k. int k < tries - 1) [0..<Suc n] = [0..<n]"
      using len n by (simp add: filter_True)
    with n show ?thesis by simp
  qed
  have "execute_with_retry next_outcome tries backoff (map Inl errs @ rest)
        = retry_loop next_outcome tries backoff (int 0 + int (length errs))
             (if errs = [] then None else Some (last errs))
             ([] @ map (\<lambda>k. backoff ^ k)
                         (filter (\<lambda>k. int k < tries - 1) [0..<0 + length errs]))
             rest"
    unfolding execute_with_retry_def
    using retry_loop_consumes[OF tr, of 0 tries backoff None "[]" rest] len
    by simp
  also have "\<dots> = (Inl (last errs), backoff_sleeps backoff (length errs - 1), rest)"
    using len ne
    by (subst retry_loop.simps) (simp add: raise_last_err_def backoff_sleeps_def flt)
  finally show "execute_with_retry next_outcome tries backoff (map Inl errs @ rest)
              = (Inl (last errs), backoff_sleeps backoff (length errs - 1), rest)" .
qed


lemmas retry_eval = execute_with_retry_def retry_loop.simps next_outcome_def reraised_at_once_def
  is_retryable_http_error_def raise_last_err_def

theorem retry_wrapper_behaviour_witness:
  "execute_with_retry next_outcome 4 2
      (map Inl [HttpError (Some 503), OSError ''timed out'', OtherException ''ValueError'']
         @ Inr ''items'' # [Inr ''unused''])
     = (Inr ''items'', [1, 2, 4], [Inr ''unused''])
   \<and> execute_with_retry next_outcome 4 2
      (map Inl [HttpError (Some 503), OSError ''timed out'', OtherException ''ValueError'']
         @ Inl (HttpError (Some 403)) # [Inr ''unused''])
     = (Inl (HttpError (Some 403)), [1, 2, 4], [Inr ''unused''])
   \<and> execute_with_retry next_outcome 3 2
      (map Inl [HttpError (Some 503), OSError ''timed out'', OtherException ''ValueError'']
         @ [Inr ''unused''])
     = (Inl (OtherException ''ValueError''), [1, 2], [Inr ''unused''])"
proof -
  let ?errs = "[HttpError (Some 503), OSError ''timed out'', OtherException ''ValueError'']"
  have tr: "\<forall>e \<in> set ?errs. \<not> reraised_at_once e"
    by (simp add: reraised_at_once_def is_retryable_http_error_def)
  have re: "reraised_at_once (HttpError (Some 403))"
    by (simp add: reraised_at_once_def is_retryable_http_error_def)
  have sl: "backoff_sleeps 2 (Suc (Suc (Suc 0))) = [1, 2, 4]"
    "backoff_sleeps 2 (Suc (Suc 0)) = [1, 2]"
    by (simp_all add: backoff_sleeps_def upt_rec)
  from retry_wrapper_behaviour[OF tr, where tries = 4 and backoff = 2 and resp = "''items''"
         and rest = "[Inr ''unused'']" and e = "HttpError (Some 403)"]
       retry_wrapper_behaviour[OF tr, where tries = 3 and backoff = 2
         and rest = "[Inr ''unused'']"]
       re sl
  show ?thesis by simp
qed

text \<open>
  Claim C7 as stated fails twice. An exception outside the transient conditions that is not
  an \<open>HttpError\<close> (here a \<open>ValueError\<close>) is retried, not propagated: the second execution
  returns. And status 501, of the 5xx class, is not retried: the error is raised at once and
  the second outcome is never asked for.
\<close>

theorem retry_wrapper_counterexample:
  "execute_with_retry next_outcome 3 2 [Inl (OtherException ''ValueError''), Inr ''items'']
     = (Inr ''items'', [1], [])
   \<and> execute_with_retry next_outcome 3 2 [Inl (HttpError (Some 501)), Inr ''items'']
     = (Inl (HttpError (Some 501)), [], [Inr ''items''])"
  by (simp add: retry_eval)


section \<open>Properties of the semantic rerank\<close>

lemma collect_top_eq:
  assumes "int (length out) < max_comments"
  shows "collect_top pairs min_similarity max_comments out
         = out @ take (nat max_comments - length out)
                   (filter (\<lambda>p. snd p \<ge> min_similarity) pairs)"
  using assms
proof (induction pairs arbitrary: out)
  case Nil
  then show ?case by simp
next
  case (Cons p pairs)
  obtain c s where p: "p = (c, s)" by (cases p)
  show ?case
  proof (cases "s \<ge> min_similarity")
    case False
    with Cons p show ?thesis by simp
  next
    case True
    show ?thesis
    proof (cases "int (length (out @ [(c, s)])) \<ge> max_comments")
      case full: True
      with Cons.prems have "nat max_comments - length out = 1" by simp
      with True full p show ?thesis by (simp add: Let_def)
    next
      case notfull: False
      then have lt: "int (length (out @ [(c, s)])) < max_comments" by simp
      have d: "nat max_comments - length out = Suc (nat max_comments - length (out @ [(c, s)]))"
        using lt by simp
      from Cons.IH[OF lt] True notfull p show ?thesis
        unfolding d by (simp add: Let_def)
    qed
  qed
qed

lemma rerank_spec_sorted:
  "sorted_wrt (\<lambda>a b. snd a \<ge> snd b) (rerank_spec pairs ms mc)"
proof -
  have "sorted (map (\<lambda>p. - snd p) (sort_pairs pairs))"
    unfolding sort_pairs_def by (rule sorted_sort_key)
  then have "sorted_wrt (\<lambda>a b. snd a \<ge> snd b) (sort_pairs pairs)"
    by (simp add: sorted_wrt_map)
  then have "sorted_wrt (\<lambda>a b. snd a \<ge> snd b) (filter (\<lambda>p. snd p \<ge> ms) (sort_pairs pairs))"
    by (rule sorted_wrt_filter)
  then show ?thesis
    unfolding rerank_spec_def by (rule sorted_wrt_take)
qed

text \<open>
  With a maximum count of at least one, the rerank returns what the specification says:
  the comments whose similarity is at or above the floor, in descending order of
  similarity, the first \<open>max_comments\<close> of them, and nothing else. The result is sorted by
  descending score, every entry is a scored comment of the input at or above the floor,
  there are at most \<open>max_comments\<close> entries, and when no more than \<open>max_comments\<close> comments
  reach the floor the result holds all of them. No fallback lowers the floor: when none
  reaches it the result is empty.
\<close>

lemma semantic_rerank_refines_spec:
  assumes cap: "1 \<le> max_comments"
      and sims: "sim question (map comment_text filtered) = Inr sims"
  shows "semantic_rerank sim question filtered min_similarity max_comments
           = Inr (rerank_spec (zip filtered sims) min_similarity max_comments)
       \<and> sorted_wrt (\<lambda>a b. snd a \<ge> snd b)
            (rerank_spec (zip filtered sims) min_similarity max_comments)
       \<and> (\<forall>p \<in> set (rerank_spec (zip filtered sims) min_similarity max_comments).
             p \<in> set (zip filtered sims) \<and> snd p \<ge> min_similarity)
       \<and> int (length (rerank_spec (zip filtered sims) min_similarity max_comments))
             \<le> max_comments
       \<and> (int (length (filter (\<lambda>p. snd p \<ge> min_similarity) (zip filtered sims)))
             \<le> max_comments \<longrightarrow>
           set (rerank_spec (zip filtered sims) min_similarity max_comments)
             = {p \<in> set (zip filtered sims). snd p \<ge> min_similarity})"
proof -
  let ?pairs = "zip filtered sims"
  have eq: "semantic_rerank sim question filtered min_similarity max_comments
           = Inr (rerank_spec ?pairs min_similarity max_comments)"
    using cap sims
    by (simp add: semantic_rerank_def rerank_spec_def collect_top_eq)
  have mem: "\<forall>p \<in> set (rerank_spec ?pairs min_similarity max_comments).
             p \<in> set ?pairs \<and> snd p \<ge> min_similarity"
  proof
    fix p assume "p \<in> set (rerank_spec ?pairs min_similarity max_comments)"
    then have "p \<in> set (filter (\<lambda>p. snd p \<ge> min_similarity) (sort_pairs ?pairs))"
      unfolding rerank_spec_def by (rule in_set_takeD)
    then show "p \<in> set ?pairs \<and> snd p \<ge> min_similarity"
      by (simp add: sort_pairs_def)
  qed
  have len: "int (length (rerank_spec ?pairs min_similarity max_comments)) \<le> max_comments"
    using cap by (simp add: rerank_spec_def)
  have all: "set (rerank_spec ?pairs min_similarity max_comments)
             = {p \<in> set ?pairs. snd p \<ge> min_similarity}"
    if "int (length (filter (\<lambda>p. snd p \<ge> min_similarity) ?pairs)) \<le> max_comments"
  proof -
    have "length (filter (\<lambda>p. snd p \<ge> min_similarity) (sort_pairs ?pairs))
          = length (filter (\<lambda>p. snd p \<ge> min_similarity) ?pairs)"
      unfolding sort_pairs_def
      by (simp add: filter_sort)
    with that have "length (filter (\<lambda>p. snd p \<ge> min_similarity) (sort_pairs ?pairs))
                      \<le> nat max_comments"
      by simp
    then show ?thesis
      by (auto simp: rerank_spec_def sort_pairs_def)
  qed
  from eq rerank_spec_sorted mem len all show ?thesis by blast
qed


text \<open>
  The example of the claim: similarities 0.1, 0.3, 0.5, floor 0.25, cap 2.
\<close>

lemma semantic_rerank_refines_spec_example:
  "semantic_rerank (fixed_similarity [0.1, 0.3, 0.5]) ''How durable is the bag?''
     [example_comment ''one'', example_comment ''two'', example_comment ''three''] 0.25 2
   = Inr [(example_comment ''three'', 0.5), (example_comment ''two'', 0.3)]"
proof -
  let ?cs = "[example_comment ''one'', example_comment ''two'', example_comment ''three'']"
  have sims: "fixed_similarity [0.1, 0.3, 0.5] ''How durable is the bag?''
                (map comment_text ?cs) = Inr [0.1, 0.3, 0.5]"
    by (simp add: fixed_similarity_def)
  have spec: "rerank_spec (zip ?cs [0.1, 0.3, 0.5]) 0.25 2
              = [(example_comment ''three'', 0.5), (example_comment ''two'', 0.3)]"
    by (simp add: rerank_spec_def sort_pairs_def)
  from semantic_rerank_refines_spec[where sim = "fixed_similarity [0.1, 0.3, 0.5]"
         and question = "''How durable is the bag?''" and filtered = ?cs
         and sims = "[0.1, 0.3, 0.5]" and max_comments = 2 and min_similarity = "0.25",
         OF _ sims] spec
  show ?thesis by simp
qed

text \<open>
  Claim C3, at the input where the code departs from it: the result is not capped at the
  configured maximum count when that count is zero. The loop of lines 297-304 appends
  before it tests the cap, so with \<open>max_comments = 0\<close> and one comment at or above the floor
  the code returns that comment, where "return up to max_comments" (the comment of line
  289) and the capped list of the specification give none.
\<close>

theorem semantic_rerank_cap_zero_returns_one:
  "semantic_rerank (fixed_similarity [0.5]) ''How durable is the bag?''
     [example_comment ''one''] 0.25 0
   = Inr [(example_comment ''one'', 0.5)]
   \<and> rerank_spec (zip [example_comment ''one''] [0.5]) 0.25 0 = []"
  by (simp add: semantic_rerank_def fixed_similarity_def sort_pairs_def rerank_spec_def)

section \<open>Properties of the comment pipeline\<close>

lemma semantic_rerank_returns: "\<exists>out. semantic_rerank sim question filtered ms mc = Inr out"
  by (simp add: semantic_rerank_def split: sum.split)

lemma semantic_rerank_failure:
  assumes "sim question (map comment_text filtered) = Inl e"
  shows "semantic_rerank sim question filtered ms mc = Inr []"
  using assms by (simp add: semantic_rerank_def)

lemma semantic_rerank_success:
  assumes "sim question (map comment_text filtered) = Inr sims"
  shows "semantic_rerank sim question filtered ms mc
         = Inr (collect_top (sort_pairs (zip filtered sims)) ms mc [])"
  using assms by (simp add: semantic_rerank_def)

lemma keyword_filter_Nil: "keyword_filter question [] = []"
  by (simp add: keyword_filter_def Let_def)

lemma collect_raw_append:
  "collect_raw detect min_chars min_words (xs @ ys)
   = collect_raw detect min_chars min_words xs @ collect_raw detect min_chars min_words ys"
  by (induction xs) (simp_all split: sum.split option.split)

lemma item_body_detection_fails:
  assumes "\<forall>lang. detect (normalize_str (case textDisplay sn of None \<Rightarrow> [] | Some t \<Rightarrow> t))
                    \<noteq> Detected lang"
  shows "collect_raw detect min_chars min_words [TopLevelComment sn] = []"
proof -
  let ?txt = "normalize_str (case textDisplay sn of None \<Rightarrow> [] | Some t \<Rightarrow> t)"
  from assms have "detect ?txt = LangDetectException \<or> (\<exists>m. detect ?txt = DetectRaised m)"
    by (cases "detect ?txt") auto
  then have "item_body detect min_chars min_words (TopLevelComment sn) = Inr None
             \<or> (\<exists>e. item_body detect min_chars min_words (TopLevelComment sn) = Inl e)"
    by (auto simp: item_body_def Let_def)
  then show ?thesis by auto
qed

lemma item_body_english:
  assumes "looks_meaningful min_chars min_words
             (normalize_str (case textDisplay sn of None \<Rightarrow> [] | Some t \<Rightarrow> t))"
      and "detect (normalize_str (case textDisplay sn of None \<Rightarrow> [] | Some t \<Rightarrow> t))
             = Detected ''en''"
  shows "collect_raw detect min_chars min_words [TopLevelComment sn]
         = [\<lparr>comment_text = normalize_str (case textDisplay sn of None \<Rightarrow> [] | Some t \<Rightarrow> t),
             author = (case authorDisplayName sn of None \<Rightarrow> ''Anonymous'' | Some a \<Rightarrow> a),
             likeCount = (case sn_likeCount sn of None \<Rightarrow> 0 | Some n \<Rightarrow> n),
             publishedAt = (case sn_publishedAt sn of None \<Rightarrow> [] | Some p \<Rightarrow> p)\<rparr>]"
  using assms by (simp add: item_body_def Let_def)

lemma fetch_on_items:
  fixes request :: "(py_exception, response, 'w) callable"
  assumes "fst (execute_with_retry request tries 2 w) = Inr resp"
      and "response_items resp = Inr items"
      and "question_str question = Inr q"
  shows "fst (fetch_relevant_comments detect sim min_chars min_words (Inr request) question
                max_comments min_similarity tries w)
         = (if keyword_filter q (collect_raw detect min_chars min_words items) = []
            then Inr []
            else semantic_rerank sim q
                   (keyword_filter q (collect_raw detect min_chars min_words items))
                   min_similarity max_comments)"
proof -
  obtain r sleeps w' where ex: "execute_with_retry request tries 2 w = (r, sleeps, w')"
    by (cases "execute_with_retry request tries 2 w") auto
  with assms(1) have r: "r = Inr resp" by simp
  show ?thesis
    by (simp add: fetch_relevant_comments_def ex r assms(2,3) Let_def keyword_filter_Nil)
qed

text \<open>
  Claim C9, as the code has it. Take a reply of the comment-thread request that is an
  object whose entry \<open>"items"\<close> is a list or absent, and a question that is a string (or
  reads as the empty string). Then \<open>fetch_relevant_comments\<close> returns a list and raises
  nothing, whatever the detector and the similarity do. It returns the empty list when
  the request cannot be built and when the fetch fails after its retries (for any
  question), when the similarity computation fails, and when no comment passes the keyword
  filter; when the similarity computation succeeds it returns the top of the sorted pairs
  of the comments that passed. A malformed item and a comment on which language detection
  fails are skipped, and only they: the comments collected before and after them are kept,
  and a meaningful comment detected as English is collected between those of its
  neighbours.
\<close>

theorem fetch_relevant_comments_never_raises:
  fixes req :: "py_exception + (py_exception, response, 'w) callable"
  shows "(req = Inl e \<longrightarrow>
            fst (fetch_relevant_comments detect sim min_chars min_words req question
                   max_comments min_similarity tries w) = Inr [])
       \<and> (req = Inr request \<and> fst (execute_with_retry request tries 2 w) = Inl e \<longrightarrow>
            fst (fetch_relevant_comments detect sim min_chars min_words req question
                   max_comments min_similarity tries w) = Inr [])
       \<and> (req = Inr request \<and> fst (execute_with_retry request tries 2 w) = Inr resp
            \<and> response_items resp = Inr items \<and> question_str question = Inr q \<longrightarrow>
            (\<exists>out. fst (fetch_relevant_comments detect sim min_chars min_words req question
                         max_comments min_similarity tries w) = Inr out))
       \<and> (req = Inr request \<and> fst (execute_with_retry request tries 2 w) = Inr resp
            \<and> response_items resp = Inr items \<and> question_str question = Inr q
            \<and> (\<forall>texts. isl (sim q texts)) \<longrightarrow>
            fst (fetch_relevant_comments detect sim min_chars min_words req question
                   max_comments min_similarity tries w) = Inr [])
       \<and> (req = Inr request \<and> fst (execute_with_retry request tries 2 w) = Inr resp
            \<and> response_items resp = Inr items \<and> question_str question = Inr q
            \<and> keyword_filter q (collect_raw detect min_chars min_words items) = [] \<longrightarrow>
            fst (fetch_relevant_comments detect sim min_chars min_words req question
                   max_comments min_similarity tries w) = Inr [])
       \<and> (req = Inr request \<and> fst (execute_with_retry request tries 2 w) = Inr resp
            \<and> response_items resp = Inr items \<and> question_str question = Inr q
            \<and> keyword_filter q (collect_raw detect min_chars min_words items) \<noteq> []
            \<and> sim q (map comment_text
                 (keyword_filter q (collect_raw detect min_chars min_words items)))
                = Inr sims \<longrightarrow>
            fst (fetch_relevant_comments detect sim min_chars min_words req question
                   max_comments min_similarity tries w)
              = Inr (collect_top
                       (sort_pairs (zip (keyword_filter q
                                           (collect_raw detect min_chars min_words items)) sims))
                       min_similarity max_comments []))
       \<and> collect_raw detect min_chars min_words (before @ Malformed # after)
           = collect_raw detect min_chars min_words before
             @ collect_raw detect min_chars min_words after
       \<and> ((\<forall>lang. detect (normalize_str (case textDisplay sn of None \<Rightarrow> [] | Some t \<Rightarrow> t))
                     \<noteq> Detected lang) \<longrightarrow>
            collect_raw detect min_chars min_words (before @ TopLevelComment sn # after)
              = collect_raw detect min_chars min_words before
                @ collect_raw detect min_chars min_words after)
       \<and> (looks_meaningful min_chars min_words
              (normalize_str (case textDisplay sn of None \<Rightarrow> [] | Some t \<Rightarrow> t))
            \<and> detect (normalize_str (case textDisplay sn of None \<Rightarrow> [] | Some t \<Rightarrow> t))
                = Detected ''en'' \<longrightarrow>
            collect_raw detect min_chars min_words (before @ TopLevelComment sn # after)
              = collect_raw detect min_chars min_words before
                @ [\<lparr>comment_text
                       = normalize_str (case textDisplay sn of None \<Rightarrow> [] | Some t \<Rightarrow> t),
                     author = (case authorDisplayName sn of
                                 None \<Rightarrow> ''Anonymous'' | Some a \<Rightarrow> a),
                     likeCount = (case sn_likeCount sn of None \<Rightarrow> 0 | Some n \<Rightarrow> n),
                     publishedAt = (case sn_publishedAt sn of None \<Rightarrow> [] | Some p \<Rightarrow> p)\<rparr>]
                @ collect_raw detect min_chars min_words after)"
proof -
  let ?f = "fetch_relevant_comments detect sim min_chars min_words req question
              max_comments min_similarity tries w"
  let ?filtered = "keyword_filter q (collect_raw detect min_chars min_words items)"
  let ?txt = "normalize_str (case textDisplay sn of None \<Rightarrow> [] | Some t \<Rightarrow> t)"
  have p1: "fst ?f = Inr []" if "req = Inl e"
    using that by (simp add: fetch_relevant_comments_def)
  have p2: "fst ?f = Inr []"
    if "req = Inr request \<and> fst (execute_with_retry request tries 2 w) = Inl e"
    using that by (auto simp: fetch_relevant_comments_def split: prod.splits)
  have on_items: "fst ?f = (if ?filtered = [] then Inr []
                   else semantic_rerank sim q ?filtered min_similarity max_comments)"
    if "req = Inr request" "fst (execute_with_retry request tries 2 w) = Inr resp"
       "response_items resp = Inr items" "question_str question = Inr q"
    unfolding that(1) using that(2,3,4) by (rule fetch_on_items)
  have p3: "\<exists>out. fst ?f = Inr out"
    if "req = Inr request \<and> fst (execute_with_retry request tries 2 w) = Inr resp
          \<and> response_items resp = Inr items \<and> question_str question = Inr q"
  proof -
    from that have eq: "fst ?f = (if ?filtered = [] then Inr []
                   else semantic_rerank sim q ?filtered min_similarity max_comments)"
      by (intro on_items) simp_all
    show ?thesis
      unfolding eq
      using semantic_rerank_returns[of sim q ?filtered min_similarity max_comments]
      by auto
  qed
  have p4: "fst ?f = Inr []"
    if a: "req = Inr request \<and> fst (execute_with_retry request tries 2 w) = Inr resp
          \<and> response_items resp = Inr items \<and> question_str question = Inr q
          \<and> (\<forall>texts. isl (sim q texts))"
  proof -
    from a have eq: "fst ?f = (if ?filtered = [] then Inr []
                   else semantic_rerank sim q ?filtered min_similarity max_comments)"
      by (intro on_items) simp_all
    from a have "isl (sim q (map comment_text ?filtered))" by simp
    then obtain e' where "sim q (map comment_text ?filtered) = Inl e'"
      by (auto simp: isl_def)
    then have "semantic_rerank sim q ?filtered min_similarity max_comments = Inr []"
      by (rule semantic_rerank_failure)
    with eq show ?thesis by simp
  qed
  have p5: "fst ?f = Inr []"
    if a: "req = Inr request \<and> fst (execute_with_retry request tries 2 w) = Inr resp
          \<and> response_items resp = Inr items \<and> question_str question = Inr q
          \<and> ?filtered = []"
  proof -
    from a have eq: "fst ?f = (if ?filtered = [] then Inr []
                   else semantic_rerank sim q ?filtered min_similarity max_comments)"
      by (intro on_items) simp_all
    with a show ?thesis by simp
  qed
  have p6: "fst ?f = Inr (collect_top (sort_pairs (zip ?filtered sims))
                            min_similarity max_comments [])"
    if a: "req = Inr request \<and> fst (execute_with_retry request tries 2 w) = Inr resp
          \<and> response_items resp = Inr items \<and> question_str question = Inr q
          \<and> ?filtered \<noteq> []
          \<and> sim q (map comment_text ?filtered) = Inr sims"
  proof -
    from a have eq: "fst ?f = (if ?filtered = [] then Inr []
                   else semantic_rerank sim q ?filtered min_similarity max_comments)"
      by (intro on_items) simp_all
    from a have "sim q (map comment_text ?filtered) = Inr sims" by simp
    then have "semantic_rerank sim q ?filtered min_similarity max_comments
               = Inr (collect_top (sort_pairs (zip ?filtered sims))
                        min_similarity max_comments [])"
      by (rule semantic_rerank_success)
    with eq a show ?thesis by simp
  qed
  have split3: "collect_raw detect min_chars min_words (before @ it # after)
                = collect_raw detect min_chars min_words before
                  @ collect_raw detect min_chars min_words [it]
                  @ collect_raw detect min_chars min_words after" for it
    using collect_raw_append[of detect min_chars min_words before "[it] @ after"]
          collect_raw_append[of detect min_chars min_words "[it]" after]
    by simp
  have p7: "collect_raw detect min_chars min_words (before @ Malformed # after)
           = collect_raw detect min_chars min_words before
             @ collect_raw detect min_chars min_words after"
    unfolding split3[of Malformed] by (simp add: item_body_def)
  have p8: "collect_raw detect min_chars min_words (before @ TopLevelComment sn # after)
              = collect_raw detect min_chars min_words before
                @ collect_raw detect min_chars min_words after"
    if "\<forall>lang. detect ?txt \<noteq> Detected lang"
    unfolding split3[of "TopLevelComment sn"]
    using item_body_detection_fails[of detect sn min_chars min_words] that by simp
  have p9: "collect_raw detect min_chars min_words (before @ TopLevelComment sn # after)
              = collect_raw detect min_chars min_words before
                @ [\<lparr>comment_text = ?txt,
                     author = (case authorDisplayName sn of
                                 None \<Rightarrow> ''Anonymous'' | Some a \<Rightarrow> a),
                     likeCount = (case sn_likeCount sn of None \<Rightarrow> 0 | Some n \<Rightarrow> n),
                     publishedAt = (case sn_publishedAt sn of None \<Rightarrow> [] | Some p \<Rightarrow> p)\<rparr>]
                @ collect_raw detect min_chars min_words after"
    if "looks_meaningful min_chars min_words ?txt \<and> detect ?txt = Detected ''en''"
    unfolding split3[of "TopLevelComment sn"]
    using item_body_english[of min_chars min_words sn detect] that by simp
  from p1 p2 p3 p4 p5 p6 p7 p8 p9 show ?thesis by blast
qed


lemma normalize_digits:
  "normalize_str ''123 456 789 012 345 678 901'' = ''123 456 789 012 345 678 901''"
  by code_simp

lemma normalize_bag:
  "normalize_str ''This bag is durable and survived two years of travel''
     = ''This bag is durable and survived two years of travel''"
  by code_simp

lemma meaningful_digits: "looks_meaningful 25 6 ''123 456 789 012 345 678 901''"
  by code_simp

lemma meaningful_bag:
  "looks_meaningful 25 6 ''This bag is durable and survived two years of travel''"
  by code_simp

lemma keywords_bag:
  "keyword_filter ''How durable is the bag?''
     [example_comment ''This bag is durable and survived two years of travel'']
   = [example_comment ''This bag is durable and survived two years of travel'']"
  by code_simp

lemma collect_raw_digits:
  "collect_raw (english_except ''123 456 789 012 345 678 901'') 25 6
     [example_item ''123 456 789 012 345 678 901''] = []"
  by (simp add: item_body_def example_item_def english_except_def normalize_digits
        meaningful_digits)

lemma collect_raw_bag:
  "collect_raw (english_except ''123 456 789 012 345 678 901'') 25 6
     [example_item ''This bag is durable and survived two years of travel'']
   = [example_comment ''This bag is durable and survived two years of travel'']"
  by (simp add: item_body_def example_item_def example_comment_def english_except_def
        normalize_bag meaningful_bag)

lemma collect_raw_malformed:
  "collect_raw (english_except ''123 456 789 012 345 678 901'') 25 6 [Malformed] = []"
  by (simp add: item_body_def)

lemma collect_raw_example:
  "collect_raw (english_except ''123 456 789 012 345 678 901'') 25 6
     [example_item ''123 456 789 012 345 678 901'',
      example_item ''This bag is durable and survived two years of travel'']
   = [example_comment ''This bag is durable and survived two years of travel'']"
  using collect_raw_append[of "english_except ''123 456 789 012 345 678 901''" 25 6
          "[example_item ''123 456 789 012 345 678 901'']"
          "[example_item ''This bag is durable and survived two years of travel'']"]
  by (simp only: append.simps collect_raw_digits collect_raw_bag)

lemma execute_one_reply:
  "execute_with_retry next_outcome 3 2 [Inr (resp :: response)] = (Inr resp, [], [])"
  by (simp add: retry_eval)

text \<open>
  The theorem at work. The detector fails on the comment of digits and answers English on
  the other; the question is "How durable is the bag?", with 3 tries, at most 5 comments
  and floor 0.25. In turn: a request that cannot be built; a fetch refused with status
  403; a reply without items; a similarity that raises; a reply of two comments, of which
  the second comes back with its score; and the three ways an item in the middle of a
  reply is treated.
\<close>

theorem fetch_relevant_comments_never_raises_witness:
  "fst (fetch_relevant_comments (english_except ''123 456 789 012 345 678 901'')
       (fixed_similarity [0.5]) 25 6
       (Inl (OtherException ''build'')
          :: py_exception + (py_exception, response, (py_exception + response) list) callable)
       (Text ''How durable is the bag?'') 5 0.25 3 []) = Inr []
   \<and> fst (fetch_relevant_comments (english_except ''123 456 789 012 345 678 901'')
       (fixed_similarity [0.5]) 25 6 (Inr next_outcome) (Text ''How durable is the bag?'') 5 0.25 3
       [Inl (HttpError (Some 403))]) = Inr []
   \<and> (\<exists>out. fst (fetch_relevant_comments (english_except ''123 456 789 012 345 678 901'')
       (fixed_similarity [0.5]) 25 6 (Inr next_outcome) (Text ''How durable is the bag?'') 5 0.25 3
       [Inr (Object ItemsAbsent)]) = Inr out)
   \<and> fst (fetch_relevant_comments (english_except ''123 456 789 012 345 678 901'')
       (failing_similarity (OtherException ''encode'')) 25 6 (Inr next_outcome)
       (Text ''How durable is the bag?'') 5 0.25 3
       [Inr (Object (ItemsList
          [example_item ''This bag is durable and survived two years of travel'']))]) = Inr []
   \<and> fst (fetch_relevant_comments (english_except ''123 456 789 012 345 678 901'')
       (fixed_similarity [0.5]) 25 6 (Inr next_outcome) (Text ''How durable is the bag?'') 5 0.25 3
       [Inr (Object ItemsAbsent)]) = Inr []
   \<and> fst (fetch_relevant_comments (english_except ''123 456 789 012 345 678 901'')
       (fixed_similarity [0.5]) 25 6 (Inr next_outcome) (Text ''How durable is the bag?'') 5 0.25 3
       [Inr (Object (ItemsList
          [example_item ''123 456 789 012 345 678 901'',
           example_item ''This bag is durable and survived two years of travel'']))])
     = Inr [(example_comment ''This bag is durable and survived two years of travel'', 0.5)]
   \<and> collect_raw (english_except ''123 456 789 012 345 678 901'') 25 6
       [example_item ''This bag is durable and survived two years of travel'',
        Malformed,
        example_item ''This bag is durable and survived two years of travel'']
     = [example_comment ''This bag is durable and survived two years of travel'',
        example_comment ''This bag is durable and survived two years of travel'']
   \<and> collect_raw (english_except ''123 456 789 012 345 678 901'') 25 6
       [example_item ''This bag is durable and survived two years of travel'',
        example_item ''123 456 789 012 345 678 901'',
        example_item ''This bag is durable and survived two years of travel'']
     = [example_comment ''This bag is durable and survived two years of travel'',
        example_comment ''This bag is durable and survived two years of travel'']
   \<and> collect_raw (english_except ''123 456 789 012 345 678 901'') 25 6
       [example_item ''123 456 789 012 345 678 901'',
        example_item ''This bag is durable and survived two years of travel'',
        Malformed]
     = [example_comment ''This bag is durable and survived two years of travel'']"
proof -
  let ?digits = "''123 456 789 012 345 678 901''"
  let ?bag = "''This bag is durable and survived two years of travel''"
  let ?d = "english_except ?digits"
  let ?q = "''How durable is the bag?''"
  let ?sn_digits = "\<lparr>textDisplay = Some ?digits, authorDisplayName = None,
                      sn_likeCount = None, sn_publishedAt = None\<rparr>"
  let ?sn_bag = "\<lparr>textDisplay = Some ?bag, authorDisplayName = None,
                   sn_likeCount = None, sn_publishedAt = None\<rparr>"
  let ?two = "[example_item ?digits, example_item ?bag]"
  have h2: "fst (execute_with_retry next_outcome 3 2
                  [Inl (HttpError (Some 403)) :: py_exception + response])
            = Inl (HttpError (Some 403))"
    by (simp add: retry_eval)
  have ex: "fst (execute_with_retry next_outcome 3 2 [Inr resp]) = Inr resp"
    for resp :: response
    by (simp add: execute_one_reply)
  have h3: "\<forall>texts. isl (failing_similarity (OtherException ''encode'') ?q texts)"
    by (simp add: failing_similarity_def)
  have h5: "keyword_filter ?q (collect_raw ?d 25 6 []) = []"
    by (simp add: keyword_filter_Nil)
  have h6: "keyword_filter ?q (collect_raw ?d 25 6 ?two) = [example_comment ?bag]"
    by (simp only: collect_raw_example keywords_bag)
  have h6s: "fixed_similarity [0.5] ?q (map comment_text [example_comment ?bag]) = Inr [0.5]"
    by (simp add: fixed_similarity_def)
  have top: "collect_top (sort_pairs (zip [example_comment ?bag] [0.5])) 0.25 5 []
             = [(example_comment ?bag, 0.5)]"
    by (simp add: sort_pairs_def)
  have h8: "\<forall>lang. ?d (normalize_str (case textDisplay ?sn_digits of
                                        None \<Rightarrow> [] | Some t \<Rightarrow> t)) \<noteq> Detected lang"
    by (simp add: normalize_digits english_except_def)
  have h9: "looks_meaningful 25 6 (normalize_str (case textDisplay ?sn_bag of
                                                     None \<Rightarrow> [] | Some t \<Rightarrow> t))
            \<and> ?d (normalize_str (case textDisplay ?sn_bag of None \<Rightarrow> [] | Some t \<Rightarrow> t))
                = Detected ''en''"
    by (simp add: normalize_bag meaningful_bag english_except_def)
  note nr = fetch_relevant_comments_never_raises
  have c1: "fst (fetch_relevant_comments ?d (fixed_similarity [0.5]) 25 6
       (Inl (OtherException ''build'')
          :: py_exception + (py_exception, response, (py_exception + response) list) callable)
       (Text ?q) 5 0.25 3 []) = Inr []"
    using nr[where req = "Inl (OtherException ''build'')
          :: py_exception + (py_exception, response, (py_exception + response) list) callable"
        and e = "OtherException ''build''" and detect = ?d and sim = "fixed_similarity [0.5]"
        and min_chars = 25 and min_words = 6 and question = "Text ?q" and q = ?q and max_comments = 5
        and min_similarity = "0.25" and tries = 3 and w = "[]"]
    by simp
  have c2: "fst (fetch_relevant_comments ?d (fixed_similarity [0.5]) 25 6 (Inr next_outcome)
       (Text ?q) 5 0.25 3 [Inl (HttpError (Some 403))]) = Inr []"
    using nr[where req = "Inr next_outcome" and request = next_outcome
        and e = "HttpError (Some 403)" and detect = ?d and sim = "fixed_similarity [0.5]"
        and min_chars = 25 and min_words = 6 and question = "Text ?q" and q = ?q and max_comments = 5
        and min_similarity = "0.25" and tries = 3 and w = "[Inl (HttpError (Some 403))]"] h2
    by simp
  have c3: "\<exists>out. fst (fetch_relevant_comments ?d (fixed_similarity [0.5]) 25 6
       (Inr next_outcome) (Text ?q) 5 0.25 3 [Inr (Object ItemsAbsent)]) = Inr out"
    using nr[where req = "Inr next_outcome" and request = next_outcome
        and resp = "Object ItemsAbsent" and items = "[]"
        and detect = ?d and sim = "fixed_similarity [0.5]"
        and min_chars = 25 and min_words = 6 and question = "Text ?q" and q = ?q and max_comments = 5
        and min_similarity = "0.25" and tries = 3 and w = "[Inr (Object ItemsAbsent)]"]
      ex[of "Object ItemsAbsent"]
    by (simp add: response_items_def question_str_def)
  have c4: "fst (fetch_relevant_comments ?d (failing_similarity (OtherException ''encode''))
       25 6 (Inr next_outcome) (Text ?q) 5 0.25 3
       [Inr (Object (ItemsList [example_item ?bag]))]) = Inr []"
    using nr[where req = "Inr next_outcome" and request = next_outcome
        and resp = "Object (ItemsList [example_item ?bag])" and items = "[example_item ?bag]"
        and detect = ?d and sim = "failing_similarity (OtherException ''encode'')"
        and min_chars = 25 and min_words = 6 and question = "Text ?q" and q = ?q and max_comments = 5
        and min_similarity = "0.25" and tries = 3
        and w = "[Inr (Object (ItemsList [example_item ?bag]))]"]
      ex[of "Object (ItemsList [example_item ?bag])"] h3
    by (simp add: response_items_def question_str_def del: collect_raw.simps)
  have c5: "fst (fetch_relevant_comments ?d (fixed_similarity [0.5]) 25 6
       (Inr next_outcome) (Text ?q) 5 0.25 3 [Inr (Object ItemsAbsent)]) = Inr []"
    using nr[where req = "Inr next_outcome" and request = next_outcome
        and resp = "Object ItemsAbsent" and items = "[]"
        and detect = ?d and sim = "fixed_similarity [0.5]"
        and min_chars = 25 and min_words = 6 and question = "Text ?q" and q = ?q and max_comments = 5
        and min_similarity = "0.25" and tries = 3 and w = "[Inr (Object ItemsAbsent)]"]
      ex[of "Object ItemsAbsent"] h5
    by (simp add: response_items_def question_str_def)
  have c6: "fst (fetch_relevant_comments ?d (fixed_similarity [0.5]) 25 6
       (Inr next_outcome) (Text ?q) 5 0.25 3 [Inr (Object (ItemsList ?two))])
     = Inr [(example_comment ?bag, 0.5)]"
    using nr[where req = "Inr next_outcome" and request = next_outcome
        and resp = "Object (ItemsList ?two)" and items = ?two and sims = "[0.5]"
        and detect = ?d and sim = "fixed_similarity [0.5]"
        and min_chars = 25 and min_words = 6 and question = "Text ?q" and q = ?q and max_comments = 5
        and min_similarity = "0.25" and tries = 3 and w = "[Inr (Object (ItemsList ?two))]"]
      ex[of "Object (ItemsList ?two)"] h6s top
    unfolding h6
    by (simp add: response_items_def question_str_def del: collect_raw.simps)
  have c7: "collect_raw ?d 25 6 [example_item ?bag, Malformed, example_item ?bag]
            = [example_comment ?bag, example_comment ?bag]"
    using nr[where detect = ?d and min_chars = 25 and min_words = 6
        and before = "[example_item ?bag]" and after = "[example_item ?bag]"
        and req = "Inr next_outcome" and w = "[]"]
    by (simp add: collect_raw_bag del: collect_raw.simps)
  have c8: "collect_raw ?d 25 6 [example_item ?bag, example_item ?digits, example_item ?bag]
            = [example_comment ?bag, example_comment ?bag]"
    using nr[where detect = ?d and min_chars = 25 and min_words = 6 and sn = ?sn_digits
        and before = "[example_item ?bag]" and after = "[example_item ?bag]"
        and req = "Inr next_outcome" and w = "[]"] h8
    by (simp add: collect_raw_bag example_item_def[of ?digits] del: collect_raw.simps)
  have c9: "collect_raw ?d 25 6 [example_item ?digits, example_item ?bag, Malformed]
            = [example_comment ?bag]"
    using nr[where detect = ?d and min_chars = 25 and min_words = 6 and sn = ?sn_bag
        and before = "[example_item ?digits]" and after = "[Malformed]"
        and req = "Inr next_outcome" and w = "[]"] h9
    by (simp add: collect_raw_digits collect_raw_malformed example_item_def[of ?bag]
          example_comment_def normalize_bag del: collect_raw.simps)
  from c1 c2 c3 c4 c5 c6 c7 c8 c9 show ?thesis by simp
qed


text \<open>
  Outside the annotation of \<open>question\<close>: with a question that is a number and a comment
  collected, the keyword filter raises \<open>TypeError\<close> out of the function.
\<close>

lemma question_not_text_raises:
  "fetch_relevant_comments (english_except ''123 456 789 012 345 678 901'')
       (fixed_similarity [0.5]) 25 6 (Inr next_outcome) OtherValue 5 0.25 3
       [Inr (Object (ItemsList
          [example_item ''123 456 789 012 345 678 901'',
           example_item ''This bag is durable and survived two years of travel'']))]
     = (Inl (OtherException ''TypeError''), [], [])"
  by (simp add: fetch_relevant_comments_def execute_one_reply response_items_def
        question_str_def collect_raw_example del: collect_raw.simps)

text \<open>
  Claim C9 as stated fails for language detection: a failed detection drops that comment
  only. Of two comments, the detector raises \<open>LangDetectException\<close> on the first (digits
  only), and the second is returned with its score: the list returned is not empty. It
  fails also at the header of the loop: a reply whose \<open>"items"\<close> is \<open>null\<close>, and a reply
  that is no object, raise \<open>TypeError\<close> and \<open>AttributeError\<close> out of the function.
\<close>

theorem detection_failure_counterexample:
  "english_except ''123 456 789 012 345 678 901'' ''123 456 789 012 345 678 901''
     = LangDetectException
   \<and> fetch_relevant_comments (english_except ''123 456 789 012 345 678 901'')
       (fixed_similarity [0.5]) 25 6 (Inr next_outcome) (Text ''How durable is the bag?'') 5 0.25 3
       [Inr (Object (ItemsList
          [example_item ''123 456 789 012 345 678 901'',
           example_item ''This bag is durable and survived two years of travel'']))]
     = (Inr [(example_comment ''This bag is durable and survived two years of travel'', 0.5)],
        [], [])
   \<and> fetch_relevant_comments (english_except ''123 456 789 012 345 678 901'')
       (fixed_similarity [0.5]) 25 6 (Inr next_outcome) (Text ''How durable is the bag?'') 5 0.25 3
       [Inr (Object ItemsNotIterable)]
     = (Inl (OtherException ''TypeError''), [], [])
   \<and> fetch_relevant_comments (english_except ''123 456 789 012 345 678 901'')
       (fixed_similarity [0.5]) 25 6 (Inr next_outcome) (Text ''How durable is the bag?'') 5 0.25 3
       [Inr NotAnObject]
     = (Inl (OtherException ''AttributeError''), [], [])"
  by (simp add: english_except_def fetch_relevant_comments_def execute_one_reply
        response_items_def question_str_def collect_raw_example keywords_bag
        semantic_rerank_def
        fixed_similarity_def sort_pairs_def
        del: collect_raw.simps)

section \<open>Properties of URL validation\<close>

text \<open>
  A url whose netloc, with every \<open>www.\<close> removed and lowered, is not the validator's base
  domain is invalid.
\<close>

lemma cross_domain_rejected:
  assumes "urlparse lib url = Some parsed"
      and "lower (replace ''www.'' [] (netloc parsed)) \<noteq> SmartURLValidator_init bd"
  shows "\<not> is_valid_url lib (SmartURLValidator_init bd) url"
  using assms by (simp add: is_valid_url_def)

text \<open>
  Claim C8 at a url of another host. With base domain example.com, the host
  exawww.mple.com is not example.com, with or without a leading \<open>www.\<close>; but
  \<open>replace('www.', '')\<close> removes the \<open>www.\<close> inside it and leaves example.com, and the url
  is accepted. (https://other.com/page, the example of the claim, is rejected.)
\<close>

theorem is_valid_url_accepts_other_domain:
  "SmartURLValidator_init ''example.com'' = ''example.com''
   \<and> urlparse ascii_lib ''https://exawww.mple.com/page''
       = Some \<lparr>scheme = ''https'', netloc = ''exawww.mple.com'', path = ''/page'',
               params = [], query = [], fragment = []\<rparr>
   \<and> is_valid_url ascii_lib (SmartURLValidator_init ''example.com'')
         ''https://exawww.mple.com/page''
   \<and> \<not> is_valid_url ascii_lib (SmartURLValidator_init ''example.com'')
         ''https://other.com/page''"
  by code_simp


section \<open>Properties of the crawl frontier\<close>

lemma add_url_distinct:
  assumes "queues_distinct s" and "add_url lib s url priority = Some s'"
  shows "queues_distinct s'"
  using assms
  by (auto simp: add_url_def queues_distinct_def Let_def split: if_splits option.splits)

lemma get_next_url_distinct:
  assumes "queues_distinct s"
  shows "queues_distinct (snd (get_next_url s))"
  using assms
  by (auto simp: get_next_url_def queues_distinct_def split: list.splits)

lemma apply_op_distinct:
  assumes "queues_distinct s"
  shows "queues_distinct (apply_op lib op s)"
proof (cases op)
  case (AddUrl url priority)
  with assms show ?thesis
    by (auto split: option.splits dest: add_url_distinct)
next
  case GetNextUrl
  with assms show ?thesis by (simp add: get_next_url_distinct)
next
  case (EnterScrape url)
  with assms show ?thesis
    by (auto simp: scrape_page_enter_def queues_distinct_def split: option.splits if_splits)
next
  case (FailScrape n m)
  with assms show ?thesis
    by (simp add: handle_scrape_error_def queues_distinct_def Let_def)
next
  case (AppendSummary u)
  with assms show ?thesis by (simp add: queues_distinct_def)
qed

lemma fold_distinct:
  assumes "queues_distinct s"
  shows "queues_distinct (fold (apply_op lib) ops s)"
  using assms by (induction ops arbitrary: s) (simp_all add: apply_op_distinct)

lemma apply_op_visited_mono: "visited s \<subseteq> visited (apply_op lib op s)"
  by (cases op)
     (auto simp: add_url_def get_next_url_def scrape_page_enter_def handle_scrape_error_def
        Let_def split: option.splits if_splits list.splits)

lemma fold_visited_mono: "visited s \<subseteq> visited (fold (apply_op lib) ops s)"
proof (induction ops arbitrary: s)
  case Nil
  show ?case by simp
next
  case (Cons op ops)
  have "visited s \<subseteq> visited (apply_op lib op s)" by (rule apply_op_visited_mono)
  also have "\<dots> \<subseteq> visited (fold (apply_op lib) ops (apply_op lib op s))" by (rule Cons.IH)
  finally show ?case by simp
qed

text \<open>
  Claim C2, as the code has it. After any operations on a fresh scraper, neither queue
  holds a url twice. \<open>add_url\<close> on a url whose normal form is visited or failed changes
  neither queue. And once \<open>scrape_page\<close> has gone on with a url, it refuses that url
  whatever happens in between: a normal form is scraped at most once.
\<close>

theorem frontier_queues_distinct:
  assumes reach: "s = fold (apply_op lib) ops (SmartWebScraper_fields bd mp)"
  shows "distinct (priority_urls s) \<and> distinct (regular_urls s)
       \<and> (normalize_url lib url = Some n \<and> (n \<in> visited s \<or> n \<in> failed_urls s)
            \<and> add_url lib s url priority = Some s' \<longrightarrow>
            priority_urls s' = priority_urls s \<and> regular_urls s' = regular_urls s)
       \<and> (scrape_page_enter lib s url = Some (True, s1)
            \<and> s2 = fold (apply_op lib) later s1 \<longrightarrow>
            scrape_page_enter lib s2 url = Some (False, s2))"
proof -
  have "queues_distinct (SmartWebScraper_fields bd mp)"
    by (simp add: queues_distinct_def SmartWebScraper_fields_def)
  then have "queues_distinct s" unfolding reach by (rule fold_distinct)
  then have d: "distinct (priority_urls s) \<and> distinct (regular_urls s)"
    by (simp add: queues_distinct_def)
  have a: "priority_urls s' = priority_urls s \<and> regular_urls s' = regular_urls s"
    if "normalize_url lib url = Some n \<and> (n \<in> visited s \<or> n \<in> failed_urls s)
            \<and> add_url lib s url priority = Some s'"
    using that by (auto simp: add_url_def split: if_splits)
  have b: "scrape_page_enter lib s2 url = Some (False, s2)"
    if h: "scrape_page_enter lib s url = Some (True, s1) \<and> s2 = fold (apply_op lib) later s1"
  proof -
    from h obtain m where m: "normalize_url lib url = Some m" "m \<in> visited s1"
      by (auto simp: scrape_page_enter_def split: option.splits if_splits)
    from h have "visited s1 \<subseteq> visited s2" by (simp add: fold_visited_mono)
    with m show ?thesis by (auto simp: scrape_page_enter_def)
  qed
  from d a b show ?thesis by blast
qed


lemma blog_valid:
  "is_valid_url ascii_lib ''example.com'' ''https://example.com/blog/''"
  "is_valid_url ascii_lib ''example.com'' ''https://example.com/blog''"
  by code_simp+

lemma blog_normalized:
  "normalize_url ascii_lib ''https://example.com/blog/'' = Some ''https://example.com/blog''"
  "normalize_url ascii_lib ''https://example.com/blog'' = Some ''https://example.com/blog''"
  by code_simp+

lemma blog_priority:
  "get_url_priority ascii_lib ''https://example.com/blog/'' = Some 16"
  "get_url_priority ascii_lib ''https://example.com/blog'' = Some 6"
  by code_simp+

lemmas frontier_eval = add_url_def get_next_url_def scrape_page_enter_def
  SmartWebScraper_fields_def blog_valid blog_normalized blog_priority

theorem frontier_queues_distinct_witness:
  "visited (fold (apply_op ascii_lib)
       [AddUrl ''https://example.com/blog/'' 0, GetNextUrl,
        EnterScrape ''https://example.com/blog'']
       (SmartWebScraper_fields ''example.com'' 50)) = {''https://example.com/blog''}
   \<and> add_url ascii_lib (fold (apply_op ascii_lib)
       [AddUrl ''https://example.com/blog/'' 0, GetNextUrl,
        EnterScrape ''https://example.com/blog'']
       (SmartWebScraper_fields ''example.com'' 50)) ''https://example.com/blog/'' 0
     = Some (fold (apply_op ascii_lib)
       [AddUrl ''https://example.com/blog/'' 0, GetNextUrl,
        EnterScrape ''https://example.com/blog'']
       (SmartWebScraper_fields ''example.com'' 50))
   \<and> scrape_page_enter ascii_lib (fold (apply_op ascii_lib)
       [AddUrl ''https://example.com/blog/'' 0, GetNextUrl,
        EnterScrape ''https://example.com/blog'', AddUrl ''https://example.com/blog/'' 0]
       (SmartWebScraper_fields ''example.com'' 50)) ''https://example.com/blog''
     = Some (False, fold (apply_op ascii_lib)
       [AddUrl ''https://example.com/blog/'' 0, GetNextUrl,
        EnterScrape ''https://example.com/blog'', AddUrl ''https://example.com/blog/'' 0]
       (SmartWebScraper_fields ''example.com'' 50))"
proof -
  let ?fresh = "SmartWebScraper_fields ''example.com'' 50"
  let ?u = "''https://example.com/blog''"
  let ?a = "fold (apply_op ascii_lib) [AddUrl ''https://example.com/blog/'' 0, GetNextUrl] ?fresh"
  let ?b = "fold (apply_op ascii_lib)
       [AddUrl ''https://example.com/blog/'' 0, GetNextUrl, EnterScrape ?u] ?fresh"
  let ?c = "fold (apply_op ascii_lib) [AddUrl ''https://example.com/blog/'' 0] ?b"
  have vis: "visited ?b = {?u}"
    by (simp add: frontier_eval)
  have add: "add_url ascii_lib ?b ''https://example.com/blog/'' 0 = Some ?b"
    by (simp add: frontier_eval)
  have enter: "scrape_page_enter ascii_lib ?a ?u = Some (True, ?b)"
    by (simp add: frontier_eval)
  have c: "?c = fold (apply_op ascii_lib)
       [AddUrl ''https://example.com/blog/'' 0, GetNextUrl, EnterScrape ?u,
        AddUrl ''https://example.com/blog/'' 0] ?fresh"
    by simp
  have t1: "distinct (priority_urls ?b)"
    using frontier_queues_distinct[where lib = ascii_lib and bd = "''example.com''" and mp = 50
        and s = ?b, OF refl]
    by blast
  have t2: "scrape_page_enter ascii_lib ?c ?u = Some (False, ?c)"
    using frontier_queues_distinct[where lib = ascii_lib and bd = "''example.com''" and mp = 50
        and s = ?a and url = ?u and ?s1.0 = ?b and ?s2.0 = ?c
        and later = "[AddUrl ''https://example.com/blog/'' 0]", OF refl] enter
    by blast
  have t3: "priority_urls ?b = priority_urls ?b \<and> regular_urls ?b = regular_urls ?b"
    using frontier_queues_distinct[where lib = ascii_lib and bd = "''example.com''" and mp = 50
        and s = ?b and url = "''https://example.com/blog/''" and n = ?u and priority = 0
        and s' = ?b, OF refl] vis add blog_normalized
    by blast
  from vis add t1 t2 t3 show ?thesis unfolding c by simp
qed


text \<open>
  Claim C2 as stated fails: the two spellings of the blog page have one normal form, the
  first has priority 16 and goes to the priority queue, the second has priority 6 and goes
  to the regular queue, which is the only queue \<open>add_url\<close> then looks into. The normal form
  has two live entries, and two calls of \<open>get_next_url\<close> in a row return it.
\<close>

theorem frontier_two_queues_counterexample:
  "normalize_url ascii_lib ''https://example.com/blog/'' = Some ''https://example.com/blog''
   \<and> normalize_url ascii_lib ''https://example.com/blog'' = Some ''https://example.com/blog''
   \<and> priority_urls (fold (apply_op ascii_lib)
         [AddUrl ''https://example.com/blog/'' 0, AddUrl ''https://example.com/blog'' 0]
         (SmartWebScraper_fields ''example.com'' 50)) = [''https://example.com/blog'']
   \<and> regular_urls (fold (apply_op ascii_lib)
         [AddUrl ''https://example.com/blog/'' 0, AddUrl ''https://example.com/blog'' 0]
         (SmartWebScraper_fields ''example.com'' 50)) = [''https://example.com/blog'']
   \<and> fst (get_next_url (fold (apply_op ascii_lib)
         [AddUrl ''https://example.com/blog/'' 0, AddUrl ''https://example.com/blog'' 0]
         (SmartWebScraper_fields ''example.com'' 50))) = Some ''https://example.com/blog''
   \<and> fst (get_next_url (fold (apply_op ascii_lib)
         [AddUrl ''https://example.com/blog/'' 0, AddUrl ''https://example.com/blog'' 0,
          GetNextUrl]
         (SmartWebScraper_fields ''example.com'' 50))) = Some ''https://example.com/blog''"
  by (simp add: frontier_eval)


section \<open>Properties of URL normalization\<close>

subsection \<open>A normal form splits into its parts\<close>

lemma colon_not_scheme_char: "\<not> scheme_char CHR '':''"
  by (simp add: scheme_char_def is_ascii_letter_def)

lemma letter_not_c0: "is_ascii_letter c \<Longrightarrow> \<not> (of_char c :: nat) \<le> 32"
  by (auto simp: is_ascii_letter_def Let_def)

lemma slash_netloc_end: "netloc_end CHR ''/''"
  by (simp add: netloc_end_def)

lemma takeWhile_stop:
  "\<forall>x \<in> set a. P x \<Longrightarrow> \<not> P d \<Longrightarrow> takeWhile P (a @ d # b) = a"
  by (induction a) auto

lemma dropWhile_stop:
  "\<forall>x \<in> set a. P x \<Longrightarrow> \<not> P d \<Longrightarrow> dropWhile P (a @ d # b) = d # b"
  by (induction a) auto

lemma takeWhile_all: "\<forall>x \<in> set a. P x \<Longrightarrow> takeWhile P a = a"
  by (induction a) auto

lemma dropWhile_all: "\<forall>x \<in> set a. P x \<Longrightarrow> dropWhile P a = []"
  by (induction a) auto

lemma split_first_absent:
  assumes "d \<notin> set s"
  shows "split_first d s = (s, [])"
proof -
  from assms have all: "\<forall>x \<in> set s. x \<noteq> d" by auto
  show ?thesis
    by (simp add: split_first_def takeWhile_all[OF all] dropWhile_all[OF all])
qed

lemma split_first_at:
  assumes "d \<notin> set a"
  shows "split_first d (a @ d # b) = (a, b)"
proof -
  from assms have all: "\<forall>x \<in> set a. x \<noteq> d" by auto
  show ?thesis
    by (simp add: split_first_def takeWhile_stop[OF all] dropWhile_stop[OF all])
qed

lemma urlsplit_rebuild:
  assumes s1: "sch \<noteq> []" "is_ascii_letter (hd sch)" "list_all scheme_char sch" "lower sch = sch"
      and n1: "\<forall>c \<in> set net. \<not> netloc_end c" "netloc_valid lib net"
      and p1: "p \<noteq> []" "hd p = CHR ''/''" "CHR ''#'' \<notin> set p" "CHR ''?'' \<notin> set p"
      and q1: "CHR ''#'' \<notin> set q"
      and safe: "\<forall>c \<in> set (net @ p @ q). (of_char c :: nat) \<notin> {9, 10, 13}"
  shows "urlsplit lib (sch @ ''://'' @ net @ p @ (if q \<noteq> [] then CHR ''?'' # q else []))
         = Some \<lparr>scheme = sch, netloc = net, path = p, params = [], query = q, fragment = []\<rparr>"
proof -
  let ?qs = "if q \<noteq> [] then CHR ''?'' # q else []"
  let ?R = "sch @ ''://'' @ net @ p @ ?qs"
  obtain s0 srest where sch: "sch = s0 # srest" using s1(1) by (cases sch) auto
  have schars: "\<forall>c \<in> set sch. scheme_char c" using s1(3) by (simp add: list_all_iff)
  have nocolon: "CHR '':'' \<notin> set sch" using schars colon_not_scheme_char by auto
  have sch_safe: "\<forall>c \<in> set sch. (of_char c :: nat) \<notin> {9, 10, 13}"
  proof
    fix c assume "c \<in> set sch"
    then have "scheme_char c" using schars by simp
    then show "(of_char c :: nat) \<notin> {9, 10, 13}"
      by (auto simp: scheme_char_def is_ascii_letter_def Let_def)
  qed
  have e1: "lstrip_c0 ?R = ?R"
    using s1(2) letter_not_c0[of s0] by (simp add: lstrip_c0_def sch)
  have "\<forall>c \<in> set ?R. (of_char c :: nat) \<notin> {9, 10, 13}"
    using sch_safe safe by auto
  then have e2: "remove_unsafe ?R = ?R"
    unfolding remove_unsafe_def by (intro filter_True) simp
  have "\<forall>x \<in> set sch. x \<noteq> CHR '':''" using nocolon by auto
  from takeWhile_stop[OF this, of "CHR '':''" "''//'' @ net @ p @ ?qs"]
  have tw: "takeWhile (\<lambda>c. c \<noteq> CHR '':'') ?R = sch"
    by simp
  have e3: "split_scheme ?R = (sch, ''//'' @ net @ p @ ?qs)"
    unfolding split_scheme_def tw Let_def using s1 by simp
  obtain p0 prest where p: "p = p0 # prest" using p1(1) by (cases p) auto
  with p1(2) have p0: "p0 = CHR ''/''" by simp
  have tn: "takeWhile (\<lambda>c. \<not> netloc_end c) (net @ p @ ?qs) = net"
    using takeWhile_stop[OF n1(1), of "CHR ''/''" "prest @ ?qs"]
    by (simp add: p p0 slash_netloc_end)
  have dn: "dropWhile (\<lambda>c. \<not> netloc_end c) (net @ p @ ?qs) = p @ ?qs"
    using dropWhile_stop[OF n1(1), of "CHR ''/''" "prest @ ?qs"]
    by (simp add: p p0 slash_netloc_end)
  have e4: "split_netloc (''//'' @ net @ p @ ?qs) = (net, p @ ?qs)"
    unfolding split_netloc_def using tn dn by simp
  have nohash: "CHR ''#'' \<notin> set (p @ ?qs)" using p1(3) q1 by simp
  have e5: "split_first CHR ''#'' (p @ ?qs) = (p @ ?qs, [])"
    by (rule split_first_absent[OF nohash])
  have e6: "split_first CHR ''?'' (p @ ?qs) = (p, q)"
  proof (cases "q = []")
    case True
    then show ?thesis using split_first_absent[OF p1(4)] by simp
  next
    case False
    then show ?thesis using split_first_at[OF p1(4), of q] by simp
  qed
  show ?thesis
    unfolding urlsplit_def e1 e2 Let_def e3 prod.case e4 e5 e6 using n1(2) by simp
qed


lemma lower_char_idem: "lower_char (lower_char c) = lower_char c"
  by (auto simp: lower_char_def Let_def)

lemma lower_idem: "lower (lower s) = lower s"
  by (simp add: lower_def lower_char_idem)

lemma lower_char_letter: "is_ascii_letter c \<Longrightarrow> is_ascii_letter (lower_char c)"
  by (auto simp: lower_char_def is_ascii_letter_def Let_def)

lemma lower_char_scheme: "scheme_char c \<Longrightarrow> scheme_char (lower_char c)"
  by (auto simp: lower_char_def scheme_char_def is_ascii_letter_def Let_def)

lemma scheme_char_safe: "scheme_char c \<Longrightarrow> (of_char c :: nat) \<notin> {9, 10, 13}"
  by (auto simp: scheme_char_def is_ascii_letter_def Let_def)

lemma split_scheme_facts:
  assumes "split_scheme u = (sch, rest)"
  shows "set rest \<subseteq> set u"
    and "sch \<noteq> [] \<longrightarrow> is_ascii_letter (hd sch) \<and> list_all scheme_char sch \<and> lower sch = sch"
    and "\<forall>c \<in> set sch. (of_char c :: nat) \<notin> {9, 10, 13}"
proof -
  let ?pre = "takeWhile (\<lambda>c. c \<noteq> CHR '':'') u"
  let ?ok = "length ?pre < length u \<and> ?pre \<noteq> [] \<and> is_ascii_letter (hd ?pre)
            \<and> list_all scheme_char ?pre"
  show "set rest \<subseteq> set u"
    using assms by (auto simp: split_scheme_def Let_def split: if_splits dest: in_set_dropD)
  show "sch \<noteq> [] \<longrightarrow> is_ascii_letter (hd sch) \<and> list_all scheme_char sch \<and> lower sch = sch"
  proof (cases ?ok)
    case True
    with assms have sch: "sch = lower ?pre" by (simp add: split_scheme_def Let_def)
    from True have ne: "?pre \<noteq> []" by simp
    then have hd: "hd (lower ?pre) = lower_char (hd ?pre)"
      by (simp add: lower_def hd_map)
    from True have "list_all scheme_char (lower ?pre)"
      by (simp add: lower_def list_all_iff lower_char_scheme)
    with True hd show ?thesis
      unfolding sch by (simp add: lower_idem lower_char_letter)
  next
    case False
    with assms have "sch = []" by (auto simp: split_scheme_def Let_def)
    then show ?thesis by simp
  qed
  then show "\<forall>c \<in> set sch. (of_char c :: nat) \<notin> {9, 10, 13}"
    by (cases "sch = []") (auto simp: list_all_iff dest: scheme_char_safe)
qed

lemma split_netloc_facts:
  assumes "split_netloc u = (net, rest)"
  shows "set net \<subseteq> set u" and "set rest \<subseteq> set u"
    and "\<forall>c \<in> set net. \<not> netloc_end c"
    and "net \<noteq> [] \<longrightarrow> rest = [] \<or> netloc_end (hd rest)"
proof -
  show "set net \<subseteq> set u"
    using assms
    by (auto simp: split_netloc_def split: if_splits dest!: set_takeWhileD dest: in_set_dropD)
  show "set rest \<subseteq> set u"
    using assms
    by (auto simp: split_netloc_def split: if_splits dest!: set_dropWhileD dest: in_set_dropD)
  show "\<forall>c \<in> set net. \<not> netloc_end c"
    using assms by (auto simp: split_netloc_def split: if_splits dest: set_takeWhileD)
  show "net \<noteq> [] \<longrightarrow> rest = [] \<or> netloc_end (hd rest)"
  proof (cases "take 2 u = ''//''")
    case True
    with assms have "rest = dropWhile (\<lambda>c. \<not> netloc_end c) (drop 2 u)"
      by (simp add: split_netloc_def)
    then show ?thesis using hd_dropWhile[of "\<lambda>c. \<not> netloc_end c" "drop 2 u"] by auto
  next
    case False
    with assms show ?thesis by (simp add: split_netloc_def)
  qed
qed

lemma split_first_facts:
  assumes "split_first d u = (a, b)"
  shows "set a \<subseteq> set u" and "set b \<subseteq> set u" and "d \<notin> set a"
    and "u \<noteq> [] \<and> hd u \<noteq> d \<longrightarrow> a \<noteq> [] \<and> hd a = hd u"
    and "u = [] \<or> hd u = d \<longrightarrow> a = []"
proof -
  from assms have a: "a = takeWhile (\<lambda>c. c \<noteq> d) u"
    and b: "b = drop 1 (dropWhile (\<lambda>c. c \<noteq> d) u)"
    by (simp_all add: split_first_def)
  show "set a \<subseteq> set u" unfolding a by (auto dest: set_takeWhileD)
  show "set b \<subseteq> set u" unfolding b by (auto dest!: in_set_dropD set_dropWhileD)
  show "d \<notin> set a" unfolding a by (auto dest: set_takeWhileD)
  show "u \<noteq> [] \<and> hd u \<noteq> d \<longrightarrow> a \<noteq> [] \<and> hd a = hd u"
    unfolding a by (cases u) auto
  show "u = [] \<or> hd u = d \<longrightarrow> a = []"
    unfolding a by (cases u) auto
qed

lemma urlsplit_facts:
  assumes "urlsplit lib U = Some r"
  shows "\<forall>c \<in> set (scheme r @ netloc r @ path r @ query r). (of_char c :: nat) \<notin> {9, 10, 13}"
    and "scheme r \<noteq> [] \<longrightarrow> is_ascii_letter (hd (scheme r)) \<and> list_all scheme_char (scheme r)
           \<and> lower (scheme r) = scheme r"
    and "\<forall>c \<in> set (netloc r). \<not> netloc_end c"
    and "netloc_valid lib (netloc r)"
    and "CHR ''#'' \<notin> set (path r)" and "CHR ''?'' \<notin> set (path r)"
    and "netloc r \<noteq> [] \<longrightarrow> path r = [] \<or> hd (path r) = CHR ''/''"
    and "params r = []"
proof -
  let ?u1 = "remove_unsafe (lstrip_c0 U)"
  obtain sch u2 where ss: "split_scheme ?u1 = (sch, u2)" by (cases "split_scheme ?u1")
  obtain net u3 where sn: "split_netloc u2 = (net, u3)" by (cases "split_netloc u2")
  obtain u4 frag where sf: "split_first CHR ''#'' u3 = (u4, frag)"
    by (cases "split_first CHR ''#'' u3")
  obtain u5 qry where sq: "split_first CHR ''?'' u4 = (u5, qry)"
    by (cases "split_first CHR ''?'' u4")
  from assms ss sn sf sq have valid: "netloc_valid lib net"
    and r: "r = \<lparr>scheme = sch, netloc = net, path = u5, params = [], query = qry,
                 fragment = frag\<rparr>"
    by (auto simp: urlsplit_def Let_def split: if_splits)
  have safe1: "\<forall>c \<in> set ?u1. (of_char c :: nat) \<notin> {9, 10, 13}"
    by (simp add: remove_unsafe_def)
  note f1 = split_scheme_facts[OF ss] and f2 = split_netloc_facts[OF sn]
    and f3 = split_first_facts[OF sf] and f4 = split_first_facts[OF sq]
  have sub: "set net \<subseteq> set ?u1" "set u5 \<subseteq> set ?u1" "set qry \<subseteq> set ?u1"
    using f1(1) f2(1,2) f3(1) f4(1,2) by blast+
  show "\<forall>c \<in> set (scheme r @ netloc r @ path r @ query r). (of_char c :: nat) \<notin> {9, 10, 13}"
    using safe1 sub f1(3) unfolding r by auto
  show "scheme r \<noteq> [] \<longrightarrow> is_ascii_letter (hd (scheme r)) \<and> list_all scheme_char (scheme r)
           \<and> lower (scheme r) = scheme r"
    using f1(2) unfolding r by simp
  show "\<forall>c \<in> set (netloc r). \<not> netloc_end c" using f2(3) unfolding r by simp
  show "netloc_valid lib (netloc r)" using valid unfolding r by simp
  show "CHR ''#'' \<notin> set (path r)" using f3(3) f4(1) unfolding r by auto
  show "CHR ''?'' \<notin> set (path r)" using f4(3) unfolding r by simp
  show "params r = []" unfolding r by simp
  show "netloc r \<noteq> [] \<longrightarrow> path r = [] \<or> hd (path r) = CHR ''/''"
  proof
    assume "netloc r \<noteq> []"
    then have "net \<noteq> []" unfolding r by simp
    with f2(4) have c: "u3 = [] \<or> netloc_end (hd u3)" by simp
    show "path r = [] \<or> hd (path r) = CHR ''/''"
    proof (cases "u3 = [] \<or> hd u3 = CHR ''#''")
      case True
      with f3(5) have "u4 = []" by simp
      with f4(5) have "u5 = []" by simp
      then show ?thesis unfolding r by simp
    next
      case False
      with f3(4) have u4: "u4 \<noteq> []" "hd u4 = hd u3" by simp_all
      show ?thesis
      proof (cases "hd u3 = CHR ''?''")
        case True
        with u4 f4(5) have "u5 = []" by simp
        then show ?thesis unfolding r by simp
      next
        case q: False
        with u4 f4(4) have "u5 \<noteq> []" "hd u5 = hd u3" by simp_all
        moreover from c False q have "hd u3 = CHR ''/''" by (auto simp: netloc_end_def)
        ultimately show ?thesis unfolding r by simp
      qed
    qed
  qed
qed

subsection \<open>The parts of a parsed url\<close>

declare split_char.simps [simp del]

lemma url_rev_parts:
  "url = rev (dropWhile (\<lambda>c. c \<noteq> CHR ''/'') (rev url)) @ last_segment url"
proof -
  have "rev (takeWhile (\<lambda>c. c \<noteq> CHR ''/'') (rev url)
             @ dropWhile (\<lambda>c. c \<noteq> CHR ''/'') (rev url)) = url"
    by simp
  then show ?thesis unfolding rev_append last_segment_def by (rule sym)
qed

lemma length_before_segment:
  "length url - length (last_segment url)
   = length (rev (dropWhile (\<lambda>c. c \<noteq> CHR ''/'') (rev url)))"
proof -
  have "length url = length (rev (dropWhile (\<lambda>c. c \<noteq> CHR ''/'') (rev url)))
                     + length (last_segment url)"
    using arg_cong[OF url_rev_parts[of url], of length] by simp
  then show ?thesis by simp
qed

lemma last_segment_split: "take (length url - length (last_segment url)) url @ last_segment url = url"
proof -
  let ?d = "rev (dropWhile (\<lambda>c. c \<noteq> CHR ''/'') (rev url))"
  have "take (length ?d) url = take (length ?d) (?d @ last_segment url)"
    using url_rev_parts[of url] by simp
  then have "take (length ?d) url = ?d" by simp
  then show ?thesis
    unfolding length_before_segment using url_rev_parts[of url] by simp
qed

lemma last_segment_shorter:
  assumes "CHR ''/'' \<in> set url"
  shows "length (last_segment url) < length url"
proof -
  from assms have "dropWhile (\<lambda>c. c \<noteq> CHR ''/'') (rev url) \<noteq> []"
    by (simp add: dropWhile_eq_Nil_conv)
  then have "0 < length (rev (dropWhile (\<lambda>c. c \<noteq> CHR ''/'') (rev url)))" by simp
  moreover have "length url = length (rev (dropWhile (\<lambda>c. c \<noteq> CHR ''/'') (rev url)))
                     + length (last_segment url)"
    using arg_cong[OF url_rev_parts[of url], of length] by simp
  ultimately show ?thesis by linarith
qed

lemma splitparams_prefix: "prefix (fst (splitparams url)) url"
proof (cases "CHR ''/'' \<in> set url")
  case True
  let ?b = "take (length url - length (last_segment url)) url"
  have "prefix (?b @ takeWhile (\<lambda>c. c \<noteq> CHR '';'') (last_segment url)) (?b @ last_segment url)"
    by (simp add: takeWhile_is_prefix)
  then have "prefix (?b @ takeWhile (\<lambda>c. c \<noteq> CHR '';'') (last_segment url)) url"
    by (simp add: last_segment_split)
  with True show ?thesis by (simp add: splitparams_def Let_def)
next
  case False
  then show ?thesis
    by (simp add: splitparams_def split_first_def takeWhile_is_prefix)
qed

lemma splitparams_keeps_slash:
  assumes "url \<noteq> []" and "hd url = CHR ''/''"
  shows "fst (splitparams url) \<noteq> [] \<and> hd (fst (splitparams url)) = CHR ''/''"
proof -
  from assms have sl: "CHR ''/'' \<in> set url" by (cases url) auto
  let ?b = "take (length url - length (last_segment url)) url"
  from last_segment_shorter[OF sl] have bne: "?b \<noteq> []" using assms(1) by simp
  then have hb: "hd ?b = hd url" by (simp add: hd_take)
  from sl bne hb assms(2) show ?thesis
    by (auto simp: splitparams_def Let_def)
qed

lemma urlparse_facts:
  assumes "urlparse lib U = Some r"
  shows "\<forall>c \<in> set (scheme r @ netloc r @ path r @ query r). (of_char c :: nat) \<notin> {9, 10, 13}"
    and "scheme r \<noteq> [] \<longrightarrow> is_ascii_letter (hd (scheme r)) \<and> list_all scheme_char (scheme r)
           \<and> lower (scheme r) = scheme r"
    and "\<forall>c \<in> set (netloc r). \<not> netloc_end c"
    and "netloc_valid lib (netloc r)"
    and "CHR ''#'' \<notin> set (path r)" and "CHR ''?'' \<notin> set (path r)"
    and "netloc r \<noteq> [] \<longrightarrow> path r = [] \<or> hd (path r) = CHR ''/''"
proof -
  from assms obtain r0 where r0: "urlsplit lib U = Some r0"
    by (auto simp: urlparse_def split: option.splits)
  note f = urlsplit_facts[OF r0]
  have rr: "scheme r = scheme r0 \<and> netloc r = netloc r0 \<and> query r = query r0
            \<and> (path r = path r0 \<or> path r = fst (splitparams (path r0)))"
    using assms r0 by (auto simp: urlparse_def split: if_splits prod.splits)
  have "set (fst (splitparams (path r0))) \<subseteq> set (path r0)"
    using splitparams_prefix[of "path r0"] by (rule set_mono_prefix)
  with rr have sub: "set (path r) \<subseteq> set (path r0)" by auto
  show "\<forall>c \<in> set (scheme r @ netloc r @ path r @ query r). (of_char c :: nat) \<notin> {9, 10, 13}"
    using f(1) rr sub by auto
  show "scheme r \<noteq> [] \<longrightarrow> is_ascii_letter (hd (scheme r)) \<and> list_all scheme_char (scheme r)
           \<and> lower (scheme r) = scheme r"
    using f(2) rr by simp
  show "\<forall>c \<in> set (netloc r). \<not> netloc_end c" using f(3) rr by simp
  show "netloc_valid lib (netloc r)" using f(4) rr by simp
  show "CHR ''#'' \<notin> set (path r)" using f(5) sub by auto
  show "CHR ''?'' \<notin> set (path r)" using f(6) sub by auto
  show "netloc r \<noteq> [] \<longrightarrow> path r = [] \<or> hd (path r) = CHR ''/''"
  proof
    assume "netloc r \<noteq> []"
    with rr f(7) have c: "path r0 = [] \<or> hd (path r0) = CHR ''/''" by simp
    from rr have "path r = path r0 \<or> path r = fst (splitparams (path r0))" by simp
    then show "path r = [] \<or> hd (path r) = CHR ''/''"
    proof
      assume "path r = path r0"
      with c show ?thesis by simp
    next
      assume p: "path r = fst (splitparams (path r0))"
      show ?thesis
      proof (cases "path r0 = []")
        case True
        then show ?thesis using p splitparams_prefix[of "path r0"] by simp
      next
        case False
        with c splitparams_keeps_slash[of "path r0"] p show ?thesis by simp
      qed
    qed
  qed
qed

subsection \<open>Splitting a joined query\<close>

lemma split_char_no_sep:
  assumes "d \<notin> set f"
  shows "split_char d f = [f]"
proof -
  from assms have all: "\<forall>x \<in> set f. x \<noteq> d" by auto
  show ?thesis by (subst split_char.simps) (simp add: dropWhile_all[OF all])
qed

lemma split_char_sep:
  assumes "d \<notin> set f"
  shows "split_char d (f @ d # rest) = f # split_char d rest"
proof -
  from assms have all: "\<forall>x \<in> set f. x \<noteq> d" by auto
  show ?thesis
    by (subst split_char.simps)
       (simp add: takeWhile_stop[OF all] dropWhile_stop[OF all])
qed

lemma split_join:
  assumes "fs \<noteq> []" and "\<forall>f \<in> set fs. d \<notin> set f"
  shows "split_char d (join [d] fs) = fs"
  using assms
proof (induction "[d]" fs rule: join.induct)
  case 1
  then show ?case by simp
next
  case (2 x)
  then show ?case by (simp add: split_char_no_sep)
next
  case (3 x y rest)
  then show ?case by (simp add: split_char_sep)
qed

lemma join_nonempty:
  assumes "fs \<noteq> []" and "hd fs \<noteq> []"
  shows "join d fs \<noteq> []"
  using assms by (induction d fs rule: join.induct) auto

lemma set_join: "set (join d fs) \<subseteq> set d \<union> \<Union> (set ` set fs)"
  by (induction d fs rule: join.induct) auto

lemma lower_char_lowercase:
  assumes "97 \<le> (of_char (lower_char c) :: nat)" and "(of_char (lower_char c) :: nat) \<le> 122"
  shows "is_ascii_letter c"
  using assms by (auto simp: lower_char_def is_ascii_letter_def Let_def split: if_splits)

lemma important_params_lowercase:
  "\<forall>w \<in> set important_params. w \<noteq> [] \<and>
     (\<forall>c \<in> set w. 97 \<le> (of_char c :: nat) \<and> (of_char c :: nat) \<le> 122)"
  by (simp add: important_params_def)

lemma important_key_letters:
  assumes "lower k \<in> set important_params"
  shows "k \<noteq> []" and "\<forall>c \<in> set k. is_ascii_letter c"
proof -
  from assms important_params_lowercase
  have ne: "lower k \<noteq> []"
    and lc: "\<forall>c \<in> set (lower k). 97 \<le> (of_char c :: nat) \<and> (of_char c :: nat) \<le> 122"
    by blast+
  from ne show "k \<noteq> []" by (simp add: lower_def)
  show "\<forall>c \<in> set k. is_ascii_letter c"
  proof
    fix c assume "c \<in> set k"
    then have "lower_char c \<in> set (lower k)" by (simp add: lower_def)
    with lc show "is_ascii_letter c" by (auto intro: lower_char_lowercase)
  qed
qed

lemma letter_not_special:
  assumes "is_ascii_letter c"
  shows "c \<noteq> CHR ''&''" "c \<noteq> CHR ''=''" "c \<noteq> CHR ''#''" "(of_char c :: nat) \<notin> {9, 10, 13}"
  using assms by (auto simp: is_ascii_letter_def Let_def)

lemma parse_field_field:
  assumes "lower k \<in> set important_params" and "unquote_plus lib k = k"
      and "unquote_plus lib (quote lib v) = v" and "quote lib v \<noteq> []"
  shows "parse_field lib (k @ ''='' @ quote lib v) = Some (k, v)"
proof -
  from important_key_letters[OF assms(1)] have "CHR ''='' \<notin> set k"
    using letter_not_special(2) by blast
  from split_first_at[OF this, of "quote lib v"]
  have "split_first CHR ''='' (k @ ''='' @ quote lib v) = (k, quote lib v)" by simp
  with assms show ?thesis by (simp add: parse_field_def)
qed

lemma map_filter_fields:
  assumes "\<forall>(k, v) \<in> set kept. lower k \<in> set important_params"
      and "codec_round_trips lib kept"
  shows "List.map_filter (parse_field lib)
           (map (\<lambda>(key, val). key @ ''='' @ quote lib val) kept) = kept"
  using assms
proof (induction kept)
  case Nil
  then show ?case by (simp add: List.map_filter_simps)
next
  case (Cons kv kept)
  obtain k v where kv: "kv = (k, v)" by (cases kv)
  from Cons.prems kv have k: "lower k \<in> set important_params"
    and c: "unquote_plus lib k = k" "unquote_plus lib (quote lib v) = v" "quote lib v \<noteq> []"
    by (auto simp: codec_round_trips_def)
  have rest: "codec_round_trips lib kept"
    using Cons.prems(2) by (simp add: codec_round_trips_def)
  from Cons.prems(1) have "\<forall>(k, v) \<in> set kept. lower k \<in> set important_params" by simp
  from Cons.IH[OF this rest] parse_field_field[OF k c] kv show ?case
    by (simp add: List.map_filter_simps)
qed

lemma letter_plain: "is_ascii_letter c \<Longrightarrow> plain_char c"
  by (auto simp: is_ascii_letter_def plain_char_def Let_def)

lemma equals_plain: "plain_char CHR ''=''"
  by (simp add: plain_char_def)

lemma codec_plain:
  assumes "codec_round_trips lib kept" and "(k, v) \<in> set kept"
  shows "\<forall>c \<in> set (quote lib v). plain_char c"
proof -
  from assms have "\<forall>c \<in> set (quote lib v).
      c \<noteq> CHR ''&'' \<and> c \<noteq> CHR ''#'' \<and> (of_char c :: nat) \<notin> {9, 10, 13}"
    unfolding codec_round_trips_def by fast
  then show ?thesis unfolding plain_char_def .
qed

lemma field_chars:
  assumes "lower k \<in> set important_params"
      and "\<forall>c \<in> set (quote lib v). plain_char c"
  shows "\<forall>c \<in> set (k @ ''='' @ quote lib v). plain_char c"
proof
  fix c assume "c \<in> set (k @ ''='' @ quote lib v)"
  then consider "c \<in> set k" | "c = CHR ''=''" | "c \<in> set (quote lib v)" by auto
  then show "plain_char c"
  proof cases
    case 1
    with important_key_letters(2)[OF assms(1)] have "is_ascii_letter c" by simp
    then show ?thesis by (rule letter_plain)
  next
    case 2
    then show ?thesis by (simp add: equals_plain)
  next
    case 3
    with assms(2) show ?thesis by simp
  qed
qed

lemma fields_chars:
  assumes "\<forall>(k, v) \<in> set kept. lower k \<in> set important_params"
      and "codec_round_trips lib kept"
  shows "\<forall>f \<in> set (map (\<lambda>(key, val). key @ ''='' @ quote lib val) kept).
           \<forall>c \<in> set f. plain_char c"
proof
  fix f assume "f \<in> set (map (\<lambda>(key, val). key @ ''='' @ quote lib val) kept)"
  then obtain kv where kvin: "kv \<in> set kept"
    and f0: "f = (\<lambda>(key, val). key @ ''='' @ quote lib val) kv"
    by auto
  obtain k v where kv: "kv = (k, v)" by (cases kv)
  from f0 kv have f: "f = k @ ''='' @ quote lib v" by simp
  from assms(1) kvin kv have k: "lower k \<in> set important_params" by fast
  from kvin kv have "(k, v) \<in> set kept" by simp
  from field_chars[OF k codec_plain[OF assms(2) this]]
  show "\<forall>c \<in> set f. plain_char c" unfolding f .
qed

lemma build_query_chars:
  assumes "\<forall>(k, v) \<in> set kept. lower k \<in> set important_params"
      and "codec_round_trips lib kept"
  shows "\<forall>c \<in> set (build_query lib kept). c \<noteq> CHR ''#'' \<and> (of_char c :: nat) \<notin> {9, 10, 13}"
proof
  fix c assume "c \<in> set (build_query lib kept)"
  with set_join[of "''&''" "map (\<lambda>(key, val). key @ ''='' @ quote lib val) kept"]
  have "c \<in> set ''&'' \<union> \<Union> (set ` set (map (\<lambda>(key, val). key @ ''='' @ quote lib val) kept))"
    unfolding build_query_def by (rule rev_subsetD[rotated])
  then have "c \<in> set ''&''
      \<or> (\<exists>f \<in> set (map (\<lambda>(key, val). key @ ''='' @ quote lib val) kept). c \<in> set f)"
    by (simp only: Un_iff UN_iff)
  then show "c \<noteq> CHR ''#'' \<and> (of_char c :: nat) \<notin> {9, 10, 13}"
  proof
    assume "c \<in> set ''&''"
    then show ?thesis by simp
  next
    assume "\<exists>f \<in> set (map (\<lambda>(key, val). key @ ''='' @ quote lib val) kept). c \<in> set f"
    then obtain f where "f \<in> set (map (\<lambda>(key, val). key @ ''='' @ quote lib val) kept)"
      "c \<in> set f" by (rule bexE)
    with fields_chars[OF assms] have "plain_char c" by fast
    then show ?thesis by (simp add: plain_char_def)
  qed
qed

lemma build_query_empty:
  assumes "\<forall>(k, v) \<in> set kept. lower k \<in> set important_params"
  shows "build_query lib kept = [] \<longleftrightarrow> kept = []"
proof
  assume "kept = []"
  then show "build_query lib kept = []" by (simp add: build_query_def)
next
  assume e: "build_query lib kept = []"
  show "kept = []"
  proof (rule ccontr)
    assume ne: "kept \<noteq> []"
    then obtain k v rest where kept: "kept = (k, v) # rest" by (cases kept) auto
    with assms have "lower k \<in> set important_params" by simp
    then have "k \<noteq> []" by (rule important_key_letters(1))
    then have "hd (map (\<lambda>(key, val). key @ ''='' @ quote lib val) kept) \<noteq> []"
      by (simp add: kept)
    with join_nonempty[of "map (\<lambda>(key, val). key @ ''='' @ quote lib val) kept" "''&''"] ne e
    show False by (simp add: build_query_def)
  qed
qed

lemma parse_qsl_build:
  assumes keys: "\<forall>(k, v) \<in> set kept. lower k \<in> set important_params"
      and codec: "codec_round_trips lib kept"
  shows "parse_qsl lib (build_query lib kept) = kept"
proof (cases "kept = []")
  case True
  then show ?thesis by (simp add: build_query_def parse_qsl_def)
next
  case False
  let ?fs = "map (\<lambda>(key, val). key @ ''='' @ quote lib val) kept"
  from False have ne: "?fs \<noteq> []" by simp
  have "\<forall>f \<in> set ?fs. CHR ''&'' \<notin> set f"
  proof
    fix f assume "f \<in> set ?fs"
    with fields_chars[OF keys codec] have "\<forall>c \<in> set f. plain_char c" by fast
    then show "CHR ''&'' \<notin> set f" by (auto simp: plain_char_def)
  qed
  from split_join[OF ne this]
  have sp: "split_char CHR ''&'' (build_query lib kept) = ?fs" by (simp add: build_query_def)
  from False build_query_empty[OF keys, of lib] have "build_query lib kept \<noteq> []" by simp
  then show ?thesis
    unfolding parse_qsl_def sp using map_filter_fields[OF keys codec] by simp
qed

lemma group_values_fresh:
  assumes "distinct (map fst pairs)" and "fst ` set pairs \<inter> fst ` set acc = {}"
  shows "group_values pairs acc = acc @ map (\<lambda>(k, v). (k, [v])) pairs"
  using assms
proof (induction pairs arbitrary: acc)
  case Nil
  then show ?case by simp
next
  case (Cons kv pairs)
  obtain k v where kv: "kv = (k, v)" by (cases kv)
  from Cons.prems kv have notin: "k \<notin> fst ` set acc" by auto
  have d: "distinct (map fst pairs)" using Cons.prems(1) by simp
  have disj: "fst ` set pairs \<inter> fst ` set (acc @ [(k, [v])]) = {}"
    using Cons.prems kv by auto
  from Cons.IH[OF d disj] notin kv show ?case by simp
qed

lemma update_keeps_names:
  "map fst (map (\<lambda>(n, vs). if n = k then (n, vs @ [v]) else (n, vs)) acc) = map fst acc"
  by (induction acc) (simp_all add: case_prod_beta)

lemma group_values_names:
  assumes "distinct (map fst acc)"
  shows "distinct (map fst (group_values pairs acc))"
  using assms
proof (induction pairs arbitrary: acc)
  case Nil
  then show ?case by simp
next
  case (Cons kv pairs)
  obtain k v where kv: "kv = (k, v)" by (cases kv)
  let ?upd = "map (\<lambda>(n, vs). if n = k then (n, vs @ [v]) else (n, vs)) acc"
  show ?case
  proof (cases "k \<in> fst ` set acc")
    case True
    then have step: "group_values (kv # pairs) acc = group_values pairs ?upd"
      unfolding kv by (simp only: group_values.simps if_True)
    have "distinct (map fst ?upd)"
      unfolding update_keeps_names by (rule Cons.prems)
    then have "distinct (map fst (group_values pairs ?upd))" by (rule Cons.IH)
    then show ?thesis unfolding step .
  next
    case False
    then have step: "group_values (kv # pairs) acc = group_values pairs (acc @ [(k, [v])])"
      unfolding kv by (simp only: group_values.simps if_False)
    from False have "k \<notin> set (map fst acc)" by simp
    with Cons.prems have "distinct (map fst (acc @ [(k, [v])]))" by simp
    then have "distinct (map fst (group_values pairs (acc @ [(k, [v])])))" by (rule Cons.IH)
    then show ?thesis unfolding step .
  qed
qed

lemma clean_params_keys:
  assumes "(k, v) \<in> set (clean_params qp)"
  shows "lower k \<in> set important_params"
  using assms by (auto simp: clean_params_def)

lemma clean_params_distinct:
  assumes "distinct (map fst qp)"
  shows "distinct (map fst (clean_params qp))"
proof -
  have "map fst (clean_params qp)
        = map fst (filter (\<lambda>(key, vals). lower key \<in> set important_params \<and> vals \<noteq> []) qp)"
    by (simp add: clean_params_def case_prod_beta comp_def)
  with distinct_map_filter[OF assms] show ?thesis by simp
qed

lemma clean_params_singletons:
  assumes "\<forall>(k, v) \<in> set kept. lower k \<in> set important_params"
  shows "clean_params (map (\<lambda>(k, v). (k, [v])) kept) = kept"
  using assms
proof (induction kept)
  case Nil
  show ?case by (simp add: clean_params_def)
next
  case (Cons kv kept)
  obtain k v where kv: "kv = (k, v)" by (cases kv)
  from Cons.prems kv have k: "lower k \<in> set important_params" by simp
  from Cons.prems have "\<forall>(k, v) \<in> set kept. lower k \<in> set important_params" by simp
  from Cons.IH[OF this] have ih: "clean_params (map (\<lambda>(k, v). (k, [v])) kept) = kept" .
  have "clean_params (map (\<lambda>(k, v). (k, [v])) (kv # kept))
        = (k, v) # clean_params (map (\<lambda>(k, v). (k, [v])) kept)"
    using k unfolding clean_params_def kv by simp
  then show ?case unfolding ih kv .
qed

lemma query_round_trip:
  assumes kept: "kept = clean_params (parse_qs lib q0)"
      and codec: "codec_round_trips lib kept"
  shows "clean_params (parse_qs lib (build_query lib kept)) = kept"
proof -
  have keys: "\<forall>(k, v) \<in> set kept. lower k \<in> set important_params"
    unfolding kept using clean_params_keys by blast
  have "distinct (map fst (parse_qs lib q0))"
    unfolding parse_qs_def by (rule group_values_names) simp
  then have d: "distinct (map fst kept)" unfolding kept by (rule clean_params_distinct)
  have "parse_qs lib (build_query lib kept) = group_values kept []"
    by (simp add: parse_qs_def parse_qsl_build[OF keys codec])
  also have "\<dots> = map (\<lambda>(k, v). (k, [v])) kept"
    using group_values_fresh[OF d, of "[]"] by simp
  finally show ?thesis by (simp add: clean_params_singletons[OF keys])
qed

subsection \<open>Idempotence\<close>

lemma rstrip_slash_parts:
  "x = rstrip_slash x @ rev (takeWhile (\<lambda>c. c = CHR ''/'') (rev x))"
proof -
  have "rev (takeWhile (\<lambda>c. c = CHR ''/'') (rev x)
             @ dropWhile (\<lambda>c. c = CHR ''/'') (rev x)) = x"
    by simp
  then show ?thesis unfolding rev_append rstrip_slash_def by (rule sym)
qed

lemma rstrip_slash_prefix: "prefix (rstrip_slash x) x"
  using rstrip_slash_parts[of x] by (metis prefixI)

lemma rstrip_slash_idem: "rstrip_slash (rstrip_slash x) = rstrip_slash x"
  by (simp add: rstrip_slash_def dropWhile_idem)

lemma rstrip_slash_hd:
  assumes "rstrip_slash x \<noteq> []"
  shows "hd (rstrip_slash x) = hd x"
proof -
  have "hd x = hd (rstrip_slash x @ rev (takeWhile (\<lambda>c. c = CHR ''/'') (rev x)))"
    using rstrip_slash_parts[of x] by (rule arg_cong)
  also have "\<dots> = hd (rstrip_slash x)" using assms by (rule hd_append2)
  finally show ?thesis by (rule sym)
qed

lemma urlparse_empty:
  assumes "urlparse lib [] = Some r"
  shows "scheme r = []"
proof -
  have "urlsplit lib [] = Some \<lparr>scheme = [], netloc = [], path = [], params = [], query = [],
                                fragment = []\<rparr>"
    by (simp add: urlsplit_def lstrip_c0_def remove_unsafe_def split_scheme_def
          split_netloc_def netloc_valid_def split_first_def)
  with assms show ?thesis by (auto simp: urlparse_def split: if_splits)
qed

text \<open>
  Claim C6, as the code has it. Let a url have a scheme and a netloc, and no \<open>;\<close> in the
  last segment of its path once the trailing slashes are stripped; and let the library
  unquote what it quoted, on the parameters kept. Then \<open>normalize_url\<close> returns a normal
  form, and the normal form of that is itself.
\<close>

theorem normalize_url_idempotent:
  assumes up: "urlparse lib url = Some parsed"
      and sne: "scheme parsed \<noteq> []"
      and nne: "netloc parsed \<noteq> []"
      and semi: "CHR '';'' \<notin> set (last_segment (rstrip_slash (path parsed)))"
      and codec: "codec_round_trips lib (clean_params (parse_qs lib (query parsed)))"
  shows "\<exists>n. normalize_url lib url = Some n \<and> normalize_url lib n = Some n"
proof -
  define p where "p = (if rstrip_slash (path parsed) = [] then ''/''
                       else rstrip_slash (path parsed))"
  define kept where "kept = clean_params (parse_qs lib (query parsed))"
  define q where "q = build_query lib kept"
  define n where "n = scheme parsed @ ''://'' @ netloc parsed @ p
                      @ (if q \<noteq> [] then CHR ''?'' # q else [])"
  note f = urlparse_facts[OF up]
  have url_ne: "url \<noteq> []" using up sne urlparse_empty by auto
  have first: "normalize_url lib url = Some n"
    using url_ne up by (simp add: normalize_url_def Let_def n_def p_def q_def kept_def)
  \<comment> \<open>the path of the normal form\<close>
  have sub: "set (rstrip_slash (path parsed)) \<subseteq> set (path parsed)"
    using rstrip_slash_prefix by (rule set_mono_prefix)
  have p_ne: "p \<noteq> []" by (simp add: p_def)
  have p_hd: "hd p = CHR ''/''"
  proof (cases "rstrip_slash (path parsed) = []")
    case True
    then show ?thesis by (simp add: p_def)
  next
    case False
    then have "path parsed \<noteq> []" by (auto simp: rstrip_slash_def)
    with f(7) nne have "hd (path parsed) = CHR ''/''" by simp
    with False rstrip_slash_hd[OF False] show ?thesis by (simp add: p_def)
  qed
  have p_sub: "set p \<subseteq> insert CHR ''/'' (set (path parsed))"
    using sub by (auto simp: p_def)
  have p_hash: "CHR ''#'' \<notin> set p" using p_sub f(5) by auto
  have p_qm: "CHR ''?'' \<notin> set p" using p_sub f(6) by auto
  have p_semi: "CHR '';'' \<notin> set (last_segment p)"
  proof (cases "rstrip_slash (path parsed) = []")
    case True
    then show ?thesis by (simp add: p_def last_segment_def)
  next
    case False
    with semi show ?thesis by (simp add: p_def)
  qed
  have p_strip: "(if rstrip_slash p = [] then ''/'' else rstrip_slash p) = p"
  proof (cases "rstrip_slash (path parsed) = []")
    case True
    then show ?thesis by (simp add: p_def rstrip_slash_def)
  next
    case False
    then show ?thesis by (simp add: p_def rstrip_slash_idem)
  qed
  \<comment> \<open>the query of the normal form\<close>
  have keys: "\<forall>(k, v) \<in> set kept. lower k \<in> set important_params"
    unfolding kept_def using clean_params_keys by blast
  have codec': "codec_round_trips lib kept" using codec by (simp add: kept_def)
  note qc = build_query_chars[OF keys codec']
  have q_hash: "CHR ''#'' \<notin> set q" using qc unfolding q_def by blast
  have q_rt: "clean_params (parse_qs lib q) = kept"
    unfolding q_def by (rule query_round_trip[OF kept_def codec'])
  \<comment> \<open>the normal form parses into its parts\<close>
  have safe: "\<forall>c \<in> set (netloc parsed @ p @ q). (of_char c :: nat) \<notin> {9, 10, 13}"
  proof
    fix c assume "c \<in> set (netloc parsed @ p @ q)"
    then consider "c \<in> set (netloc parsed)" | "c \<in> set p" | "c \<in> set q" by auto
    then show "(of_char c :: nat) \<notin> {9, 10, 13}"
    proof cases
      case 1
      with f(1) show ?thesis by simp
    next
      case 2
      with p_sub have "c = CHR ''/'' \<or> c \<in> set (path parsed)" by auto
      with f(1) show ?thesis by auto
    next
      case 3
      with qc show ?thesis unfolding q_def by blast
    qed
  qed
  from f(2) sne have sch: "is_ascii_letter (hd (scheme parsed))"
    "list_all scheme_char (scheme parsed)" "lower (scheme parsed) = scheme parsed"
    by simp_all
  have split: "urlsplit lib n
         = Some \<lparr>scheme = scheme parsed, netloc = netloc parsed, path = p, params = [],
                 query = q, fragment = []\<rparr>"
    unfolding n_def
    by (rule urlsplit_rebuild[OF sne sch f(3) f(4) p_ne p_hd p_hash p_qm q_hash safe])
  have sl: "CHR ''/'' \<in> set p" using p_ne p_hd by (cases p) auto
  have sp: "splitparams p = (p, [])"
    using sl p_semi by (simp add: splitparams_def Let_def)
  have parse2: "urlparse lib n
         = Some \<lparr>scheme = scheme parsed, netloc = netloc parsed, path = p, params = [],
                 query = q, fragment = []\<rparr>"
    unfolding urlparse_def split by (simp add: sp)
  have n_ne: "n \<noteq> []" using sne by (simp add: n_def)
  have ps1: "''/'' = p" if "rstrip_slash p = []" using p_strip that by simp
  have ps2: "rstrip_slash p = p" if "rstrip_slash p \<noteq> []" using p_strip that by simp
  have second: "normalize_url lib n = Some n"
  proof (cases "rstrip_slash p = []")
    case True
    with n_ne ps1[OF True, symmetric] show ?thesis
      by (simp add: normalize_url_def parse2 Let_def q_rt) (simp add: n_def q_def)
  next
    case False
    with n_ne ps2[OF False] show ?thesis
      by (simp add: normalize_url_def parse2 Let_def q_rt) (simp add: n_def q_def)
  qed
  from first second show ?thesis by blast
qed

theorem normalize_url_idempotent_witness:
  "normalize_url ascii_lib ''https://example.com/blog/?id=a%20b&utm_source=x&tag=x#top''
     = Some ''https://example.com/blog?id=a%20b&tag=x''
   \<and> normalize_url ascii_lib ''https://example.com/blog?id=a%20b&tag=x''
     = Some ''https://example.com/blog?id=a%20b&tag=x''"
proof -
  let ?url = "''https://example.com/blog/?id=a%20b&utm_source=x&tag=x#top''"
  let ?parsed = "\<lparr>scheme = ''https'', netloc = ''example.com'', path = ''/blog/'', params = [],
                  query = ''id=a%20b&utm_source=x&tag=x'', fragment = ''top''\<rparr>"
  have up: "urlparse ascii_lib ?url = Some ?parsed" by code_simp
  have sne: "scheme ?parsed \<noteq> []" and nne: "netloc ?parsed \<noteq> []" by simp_all
  have semi: "CHR '';'' \<notin> set (last_segment (rstrip_slash (path ?parsed)))" by code_simp
  have codec: "codec_round_trips ascii_lib (clean_params (parse_qs ascii_lib (query ?parsed)))"
    by code_simp
  have first: "normalize_url ascii_lib ?url = Some ''https://example.com/blog?id=a%20b&tag=x''"
    by code_simp
  from normalize_url_idempotent[OF up sne nne semi codec] first
  show ?thesis by auto
qed

text \<open>
  Claim C6 as stated fails in three ways. A path whose last segment gets a \<open>;\<close> when the
  trailing slash is stripped: the url is one the validator accepts, its normal form ends
  in \<open>/a;b\<close>, and normalizing that splits \<open>b\<close> off as parameters. A url without a scheme:
  the normal form starts with \<open>://\<close>, which is then read as a path. A url with a scheme
  and no netloc: the path \<open>a\<close> becomes the netloc of the normal form.
\<close>

theorem normalize_url_not_idempotent_counterexample:
  "is_valid_url ascii_lib ''example.com'' ''https://example.com/a;b/''
   \<and> normalize_url ascii_lib ''https://example.com/a;b/'' = Some ''https://example.com/a;b''
   \<and> normalize_url ascii_lib ''https://example.com/a;b'' = Some ''https://example.com/a''
   \<and> normalize_url ascii_lib ''/a'' = Some '':///a''
   \<and> normalize_url ascii_lib '':///a'' = Some ''://:///a''
   \<and> normalize_url ascii_lib ''http:a'' = Some ''http://a''
   \<and> normalize_url ascii_lib ''http://a'' = Some ''http://a/''"
  by code_simp


end
